theory Spec2Isabelle
  imports Complex_Main "HOL-Library.Monad_Syntax" "HOL-Library.Stream"
begin

section \<open>Unsigned integers, vectors, loops\<close>

text \<open>
  The class works on \<^verbatim>\<open>unsigned\<close> values (32 bits) and on \<^verbatim>\<open>std::vector<unsigned>\<close>.
  An unsigned value is a natural number below \<open>2 ^ 32\<close>. The constructor computes
  sizes, indices and gene bounds from its raw arguments, so its arithmetic is written
  with the wrap-around: \<open>u32\<close> reduces a sum or product modulo \<open>2 ^ 32\<close> (reducing once
  at the end of an expression of sums and products gives the same value as reducing
  after each operation), and \<open>usub\<close> is the unsigned subtraction.
  The methods run on an object that exists; their arithmetic is written on \<open>nat\<close>,
  and their theorems are stated for objects of a topology whose sizes fit 32 bits.
\<close>

definition u32 :: "nat \<Rightarrow> nat" where
  "u32 k = k mod 4294967296"

definition usub :: "nat \<Rightarrow> nat \<Rightarrow> nat" where
  "usub a b = (a + 4294967296 - b mod 4294967296) mod 4294967296"

text \<open>
  Reading or writing a vector out of range is undefined behaviour in C++: the model
  gives \<open>None\<close>. \<open>None\<close> is also the value of a loop that does not end.
\<close>

definition vec_at :: "'a list \<Rightarrow> nat \<Rightarrow> 'a option" where
  "vec_at v i = (if i < length v then Some (v ! i) else None)"

definition vec_set :: "'a list \<Rightarrow> nat \<Rightarrow> 'a \<Rightarrow> 'a list option" where
  "vec_set v i a = (if i < length v then Some (v[i := a]) else None)"

text \<open>A counted \<^verbatim>\<open>for\<close> loop over the values of its index, with a body that may fail.\<close>

fun for_each :: "'a list \<Rightarrow> ('a \<Rightarrow> 's \<Rightarrow> 's option) \<Rightarrow> 's \<Rightarrow> 's option" where
  "for_each [] body s = Some s"
| "for_each (a # as) body s = (case body a s of None \<Rightarrow> None | Some s' \<Rightarrow> for_each as body s')"

section \<open>The expression object\<close>

text \<open>
  \<^verbatim>\<open>std::invalid_argument\<close> with its message. A kernel (basis function) is a function
  from the list of its arguments to a value; the random engine is the stream of
  numbers it will produce.
\<close>

datatype error = Invalid_argument string

record 'u expression =
  m_n :: nat
  m_m :: nat
  m_r :: nat
  m_c :: nat
  m_l :: nat
  m_arity :: nat
  m_f :: "('u list \<Rightarrow> 'u) list"
  m_lb :: "nat list"
  m_ub :: "nat list"
  m_active_nodes :: "nat list"
  m_active_genes :: "nat list"
  m_x :: "nat list"
  m_e :: "nat stream"

text \<open>
  The outcome of a mutating method: it returns and leaves the object in a state, or it
  throws and leaves the object in a state, or it has no defined outcome.
\<close>

datatype 'a outcome = Returns 'a | Throws error 'a | Undefined

definition lift :: "'a option \<Rightarrow> 'a outcome" where
  "lift r = (case r of None \<Rightarrow> Undefined | Some a \<Rightarrow> Returns a)"

definition and_then :: "'a outcome \<Rightarrow> ('a \<Rightarrow> 'a outcome) \<Rightarrow> 'a outcome" where
  "and_then r k = (case r of Returns a \<Rightarrow> k a | Throws e a \<Rightarrow> Throws e a | Undefined \<Rightarrow> Undefined)"

text \<open>
  \<^verbatim>\<open>std::uniform_int_distribution<unsigned>(a, b)(m_e)\<close>: a value of \<open>[a, b]\<close> chosen by
  the next number of the engine; \<open>a \<le> b\<close> is required by the standard.
\<close>

definition uniform_int_distribution :: "nat \<Rightarrow> nat \<Rightarrow> nat stream \<Rightarrow> (nat \<times> nat stream) option" where
  "uniform_int_distribution a b e =
     (if a \<le> b then Some (a + shd e mod (b - a + 1), stl e) else None)"

section \<open>update\_active\<close>

text \<open>The inner loop over the connection genes of an internal node.\<close>

definition push_connections :: "nat \<Rightarrow> nat \<Rightarrow> nat list \<Rightarrow> nat \<Rightarrow> nat list \<Rightarrow> nat list option" where
  "push_connections n arity x node_id next =
     for_each [1 ..< arity + 1]
       (\<lambda>i next. do { g \<leftarrow> vec_at x ((node_id - n) * (arity + 1) + i); Some (next @ [g]) })
       next"

text \<open>The loop over \<^verbatim>\<open>current\<close>; the state is \<^verbatim>\<open>m_active_nodes\<close> and \<^verbatim>\<open>next\<close>.\<close>

definition scan_current ::
  "nat \<Rightarrow> nat \<Rightarrow> nat list \<Rightarrow> nat list \<Rightarrow> nat list \<times> nat list \<Rightarrow> (nat list \<times> nat list) option" where
  "scan_current n arity x current s =
     for_each current
       (\<lambda>node_id (active, next).
          if node_id \<ge> n then do { next' \<leftarrow> push_connections n arity x node_id next; Some (active, next') }
          else Some (active @ [node_id], next))
       s"

text \<open>
  The \<^verbatim>\<open>do ... while (current.size() > 0)\<close> loop. \<^verbatim>\<open>std::sort\<close> followed by
  \<^verbatim>\<open>std::unique\<close> and \<^verbatim>\<open>erase\<close> is \<open>remdups_adj \<circ> sort\<close>.
\<close>

partial_function (option) active_loop ::
  "nat \<Rightarrow> nat \<Rightarrow> nat list \<Rightarrow> nat list \<Rightarrow> nat list \<Rightarrow> nat list option" where
  "active_loop n arity x current active =
     do {
       (active', next) \<leftarrow> scan_current n arity x current (active @ current, []);
       (if remdups_adj (sort next) \<noteq> [] then active_loop n arity x (remdups_adj (sort next)) active'
        else Some active')
     }"

text \<open>The loop that lists the genes of the active internal nodes.\<close>

fun node_genes :: "nat \<Rightarrow> nat \<Rightarrow> nat list \<Rightarrow> nat list \<Rightarrow> nat list" where
  "node_genes n arity [] genes = genes"
| "node_genes n arity (k # ks) genes =
     node_genes n arity ks
       (if k \<ge> n then genes @ map (\<lambda>j. (k - n) * (arity + 1) + j) [0 ..< arity + 1] else genes)"

definition update_active :: "'u expression \<Rightarrow> 'u expression option" where
  "update_active st =
     (if length (m_x st) \<noteq> length (m_lb st) then None
      else do {
        current \<leftarrow> for_each [0 ..< m_m st]
          (\<lambda>i cur. do { g \<leftarrow> vec_at (m_x st) ((m_arity st + 1) * m_r st * m_c st + i); Some (cur[i := g]) })
          (replicate (m_m st) 0);
        active \<leftarrow> active_loop (m_n st) (m_arity st) (m_x st) current [];
        Some (st\<lparr>m_active_nodes := remdups_adj (sort active),
                m_active_genes :=
                  node_genes (m_n st) (m_arity st) (remdups_adj (sort active)) []
                  @ map (\<lambda>i. m_r st * m_c st * (m_arity st + 1) + i) [0 ..< m_m st]\<rparr>)
      })"

section \<open>Construction\<close>

text \<open>
  The loop over the function genes steps by \<^verbatim>\<open>arity + 1u\<close>; its index is unsigned and
  wraps, so the loop need not end.
\<close>

partial_function (option) fgene_loop ::
  "nat \<Rightarrow> nat \<Rightarrow> nat \<Rightarrow> nat \<Rightarrow> nat list \<Rightarrow> nat list option" where
  "fgene_loop i bound stride fmax ub =
     (if i < bound then do { ub' \<leftarrow> vec_set ub i fmax; fgene_loop (u32 (i + stride)) bound stride fmax ub' }
      else Some ub)"

definition output_gene_bounds ::
  "nat \<Rightarrow> nat \<Rightarrow> nat \<Rightarrow> nat \<Rightarrow> nat \<Rightarrow> nat list \<times> nat list \<Rightarrow> (nat list \<times> nat list) option" where
  "output_gene_bounds n r c l arity s =
     for_each [u32 ((arity + 1) * r * c) ..< length (snd s)]
       (\<lambda>i (lb, ub). do {
          ub' \<leftarrow> vec_set ub i (usub (u32 (n + r * c)) 1);
          lb' \<leftarrow> (if l \<le> c then vec_set lb i (u32 (n + r * (c - l))) else Some lb);
          Some (lb', ub') })
       s"

definition connection_gene_bounds ::
  "nat \<Rightarrow> nat \<Rightarrow> nat \<Rightarrow> nat \<Rightarrow> nat \<Rightarrow> nat list \<times> nat list \<Rightarrow> (nat list \<times> nat list) option" where
  "connection_gene_bounds n r c l arity s =
     for_each [0 ..< c] (\<lambda>i.
       for_each [0 ..< r] (\<lambda>j.
         for_each [0 ..< arity] (\<lambda>k (lb, ub). do {
           ub' \<leftarrow> vec_set ub (u32 (((i * r) + j) * (arity + 1) + k + 1)) (usub (u32 (n + i * r)) 1);
           lb' \<leftarrow> (if i \<ge> l then vec_set lb (u32 (((i * r) + j) * (arity + 1) + k + 1)) (u32 (n + r * (i - l)))
                   else Some lb);
           Some (lb', ub') })))
       s"

text \<open>
  The bounds \<^verbatim>\<open>(m_lb, m_ub)\<close> as the constructor fills them; \<open>fsize\<close> is \<^verbatim>\<open>f.size()\<close>.
\<close>

definition gene_bounds ::
  "nat \<Rightarrow> nat \<Rightarrow> nat \<Rightarrow> nat \<Rightarrow> nat \<Rightarrow> nat \<Rightarrow> nat \<Rightarrow> (nat list \<times> nat list) option" where
  "gene_bounds n m r c l arity fsize =
     do {
       ub \<leftarrow> fgene_loop 0 (u32 ((arity + 1) * r * c)) (u32 (arity + 1)) (u32 (fsize - 1))
               (replicate (u32 ((arity + 1) * r * c + m)) 0);
       s \<leftarrow> output_gene_bounds n r c l arity (replicate (u32 ((arity + 1) * r * c + m)) 0, ub);
       connection_gene_bounds n r c l arity s
     }"

text \<open>The loop that draws the first chromosome.\<close>

definition random_chromosome ::
  "nat list \<Rightarrow> nat list \<Rightarrow> nat list \<times> nat stream \<Rightarrow> (nat list \<times> nat stream) option" where
  "random_chromosome lb ub s =
     for_each [0 ..< length (fst s)]
       (\<lambda>i (x, e). do {
          lo \<leftarrow> vec_at lb i;
          hi \<leftarrow> vec_at ub i;
          (v, e') \<leftarrow> uniform_int_distribution lo hi e;
          Some (x[i := v], e') })
       s"

text \<open>
  The constructor; \<open>seed\<close> stands for the stream of the engine seeded with the
  argument. An exception leaves no object.
\<close>

definition expression_ctor ::
  "nat \<Rightarrow> nat \<Rightarrow> nat \<Rightarrow> nat \<Rightarrow> nat \<Rightarrow> nat \<Rightarrow> ('u list \<Rightarrow> 'u) list \<Rightarrow> nat stream
   \<Rightarrow> (error + 'u expression) option" where
  "expression_ctor n m r c l arity f seed =
     (if n = 0 then Some (Inl (Invalid_argument ''Number of inputs is 0''))
      else if m = 0 then Some (Inl (Invalid_argument ''Number of outputs is 0''))
      else if c = 0 then Some (Inl (Invalid_argument ''Number of columns is 0''))
      else if r = 0 then Some (Inl (Invalid_argument ''Number of rows is 0''))
      else if l = 0 then Some (Inl (Invalid_argument ''Number of level-backs is 0''))
      else if arity < 2 then Some (Inl (Invalid_argument ''Basis functions arity must be at least 2''))
      else if length f = 0 then Some (Inl (Invalid_argument ''Number of basis functions is 0''))
      else do {
        (lb, ub) \<leftarrow> gene_bounds n m r c l arity (length f);
        (x, e) \<leftarrow> random_chromosome lb ub (replicate (u32 ((arity + 1) * r * c + m)) 0, seed);
        st \<leftarrow> update_active
          \<lparr>m_n = n, m_m = m, m_r = r, m_c = c, m_l = l, m_arity = arity, m_f = f,
           m_lb = lb, m_ub = ub, m_active_nodes = [], m_active_genes = [], m_x = x, m_e = e\<rparr>;
        Some (Inr st)
      })"

section \<open>Accessors, validity, set\<close>

definition get :: "'u expression \<Rightarrow> nat list" where
  "get st = m_x st"

definition get_lb :: "'u expression \<Rightarrow> nat list" where
  "get_lb st = m_lb st"

definition get_ub :: "'u expression \<Rightarrow> nat list" where
  "get_ub st = m_ub st"

definition get_active_genes :: "'u expression \<Rightarrow> nat list" where
  "get_active_genes st = m_active_genes st"

definition get_active_nodes :: "'u expression \<Rightarrow> nat list" where
  "get_active_nodes st = m_active_nodes st"

text \<open>The loop of \<^verbatim>\<open>is_valid\<close> over the genes, with its early return.\<close>

fun check_bounds :: "nat list \<Rightarrow> nat list \<Rightarrow> nat list \<Rightarrow> nat list \<Rightarrow> bool option" where
  "check_bounds lb ub x [] = Some True"
| "check_bounds lb ub x (i # is) =
     do {
       u \<leftarrow> vec_at ub i;
       (if x ! i > u then Some False
        else do {
          l \<leftarrow> vec_at lb i;
          (if x ! i < l then Some False else check_bounds lb ub x is)
        })
     }"

definition is_valid :: "'u expression \<Rightarrow> nat list \<Rightarrow> bool option" where
  "is_valid st x =
     (if length x \<noteq> length (m_lb st) then Some False
      else check_bounds (m_lb st) (m_ub st) x [0 ..< length x])"

definition set_chromosome :: "nat list \<Rightarrow> 'u expression \<Rightarrow> 'u expression outcome" where
  "set_chromosome x st =
     (case is_valid st x of
        None \<Rightarrow> Undefined
      | Some False \<Rightarrow> Throws (Invalid_argument ''Chromosome is incompatible'') st
      | Some True \<Rightarrow> lift (update_active (st\<lparr>m_x := x\<rparr>)))"

section \<open>Mutation\<close>

text \<open>
  The \<^verbatim>\<open>do ... while (new_value == m_x[idx])\<close> loop: it draws until the value differs
  from the current one.
\<close>

partial_function (option) resample ::
  "nat \<Rightarrow> nat \<Rightarrow> nat \<Rightarrow> nat stream \<Rightarrow> (nat \<times> nat stream) option" where
  "resample lo hi cur e =
     do {
       (v, e') \<leftarrow> uniform_int_distribution lo hi e;
       (if v = cur then resample lo hi cur e' else Some (v, e'))
     }"

definition mutate :: "nat \<Rightarrow> 'u expression \<Rightarrow> 'u expression outcome" where
  "mutate idx st =
     (if idx \<ge> length (m_x st)
      then Throws (Invalid_argument ''idx of gene to be mutated is out of bounds'') st
      else lift (do {
        lo \<leftarrow> vec_at (m_lb st) idx;
        hi \<leftarrow> vec_at (m_ub st) idx;
        (if lo < hi then do {
           (v, e') \<leftarrow> resample lo hi (m_x st ! idx) (m_e st);
           update_active (st\<lparr>m_x := (m_x st)[idx := v], m_e := e'\<rparr>) }
         else Some st)
      }))"

text \<open>
  The loop of \<^verbatim>\<open>mutate(std::vector<unsigned>)\<close>; its state is the flag and the object.
\<close>

fun mutate_each :: "nat list \<Rightarrow> bool \<times> 'u expression \<Rightarrow> (bool \<times> 'u expression) outcome" where
  "mutate_each [] s = Returns s"
| "mutate_each (idx # idxs) (flag, st) =
     (if idx \<ge> length (m_x st)
      then Throws (Invalid_argument ''idx of gene to be mutated is out of bounds'') (flag, st)
      else and_then
        (lift (do {
           lo \<leftarrow> vec_at (m_lb st) idx;
           hi \<leftarrow> vec_at (m_ub st) idx;
           (if lo < hi then do {
              (v, e') \<leftarrow> resample lo hi (m_x st ! idx) (m_e st);
              Some (True, st\<lparr>m_x := (m_x st)[idx := v], m_e := e'\<rparr>) }
            else Some (flag, st))
         }))
        (mutate_each idxs))"

definition mutate_idxs :: "nat list \<Rightarrow> 'u expression \<Rightarrow> 'u expression outcome" where
  "mutate_idxs idxs st =
     (case mutate_each idxs (False, st) of
        Returns (flag, st') \<Rightarrow> (if flag then lift (update_active st') else Returns st')
      | Throws err (flag, st') \<Rightarrow> Throws err st'
      | Undefined \<Rightarrow> Undefined)"

text \<open>
  \<^verbatim>\<open>mutate_active(N)\<close>. With an empty \<^verbatim>\<open>m_active_genes\<close> the source draws from
  \<open>[0, 2 ^ 32 - 1]\<close> and reads out of range; here the draw is from \<open>[0, 0]\<close> and the
  read is out of range as well.
\<close>

fun mutate_active :: "nat \<Rightarrow> 'u expression \<Rightarrow> 'u expression outcome" where
  "mutate_active 0 st = Returns st"
| "mutate_active (Suc N) st =
     (case do {
             (k, e') \<leftarrow> uniform_int_distribution 0 (length (m_active_genes st) - 1) (m_e st);
             idx \<leftarrow> vec_at (m_active_genes st) k;
             Some (idx, e') } of
        None \<Rightarrow> Undefined
      | Some (idx, e') \<Rightarrow> and_then (mutate idx (st\<lparr>m_e := e'\<rparr>)) (mutate_active N))"



section \<open>Evaluation\<close>

text \<open>
  \<^verbatim>\<open>node[k]\<close> on a \<^verbatim>\<open>std::map<unsigned, U>\<close>: a key that is absent is inserted with
  the value-initialised \<^verbatim>\<open>U()\<close>, here \<open>dflt\<close>. The list beside the map records the
  keys that were absent when they were read; the program does not have it, it only
  serves to state that a read finds its key.
\<close>

definition map_index ::
  "'u \<Rightarrow> (nat \<rightharpoonup> 'u) \<times> nat list \<Rightarrow> nat \<Rightarrow> 'u \<times> ((nat \<rightharpoonup> 'u) \<times> nat list)" where
  "map_index dflt s k =
     (case fst s k of
        Some v \<Rightarrow> (v, s)
      | None \<Rightarrow> (dflt, ((fst s)(k \<mapsto> dflt), snd s @ [k])))"

text \<open>The loop that gathers the arguments of a node into \<^verbatim>\<open>function_in\<close>.\<close>

definition gather ::
  "'u \<Rightarrow> nat \<Rightarrow> nat list \<Rightarrow> nat \<Rightarrow> 'u list \<times> ((nat \<rightharpoonup> 'u) \<times> nat list)
   \<Rightarrow> ('u list \<times> ((nat \<rightharpoonup> 'u) \<times> nat list)) option" where
  "gather dflt arity x idx s =
     for_each [0 ..< arity]
       (\<lambda>j (function_in, nd). do {
          g \<leftarrow> vec_at x (idx + j + 1);
          Some (function_in[j := fst (map_index dflt nd g)], snd (map_index dflt nd g)) })
       s"

text \<open>The body of the loop over \<^verbatim>\<open>m_active_nodes\<close>.\<close>

definition eval_node ::
  "'u \<Rightarrow> 'u expression \<Rightarrow> 'u list \<Rightarrow> nat \<Rightarrow> 'u list \<times> ((nat \<rightharpoonup> 'u) \<times> nat list)
   \<Rightarrow> ('u list \<times> ((nat \<rightharpoonup> 'u) \<times> nat list)) option" where
  "eval_node dflt st input i s =
     (if i < m_n st then do {
        v \<leftarrow> vec_at input i;
        Some (fst s, ((fst (snd s))(i \<mapsto> v), snd (snd s))) }
      else do {
        (function_in, nd) \<leftarrow> gather dflt (m_arity st) (m_x st) ((i - m_n st) * (m_arity st + 1)) s;
        fg \<leftarrow> vec_at (m_x st) ((i - m_n st) * (m_arity st + 1));
        f \<leftarrow> vec_at (m_f st) fg;
        Some (function_in, ((fst nd)(i \<mapsto> f function_in), snd nd)) })"

text \<open>The loop that reads the outputs into \<^verbatim>\<open>retval\<close>.\<close>

definition read_outputs ::
  "'u \<Rightarrow> 'u expression \<Rightarrow> 'u list \<times> ((nat \<rightharpoonup> 'u) \<times> nat list)
   \<Rightarrow> ('u list \<times> ((nat \<rightharpoonup> 'u) \<times> nat list)) option" where
  "read_outputs dflt st s =
     for_each [0 ..< m_m st]
       (\<lambda>i (retval, nd). do {
          g \<leftarrow> vec_at (m_x st) ((m_r st * m_c st) * (m_arity st + 1) + i);
          Some (retval[i := fst (map_index dflt nd g)], snd (map_index dflt nd g)) })
       s"

text \<open>
  The two loops of \<^verbatim>\<open>operator()\<close> after the check of the input size: the result is
  \<^verbatim>\<open>retval\<close> with the keys that were read before they were stored.
\<close>

definition run_nodes :: "'u \<Rightarrow> 'u expression \<Rightarrow> 'u list \<Rightarrow> ('u list \<times> nat list) option" where
  "run_nodes dflt st input =
     do {
       (function_in, nd) \<leftarrow> for_each (m_active_nodes st) (eval_node dflt st input)
                              (replicate (m_arity st) dflt, (Map.empty, []));
       (retval, nd') \<leftarrow> read_outputs dflt st (replicate (m_m st) dflt, nd);
       Some (retval, snd nd')
     }"

definition call :: "'u \<Rightarrow> 'u expression \<Rightarrow> 'u list \<Rightarrow> (error + 'u list) option" where
  "call dflt st input =
     (if length input \<noteq> m_n st then Some (Inl (Invalid_argument ''Input size is incompatible''))
      else map_option (\<lambda>r. Inr (fst r)) (run_nodes dflt st input))"

section \<open>Vocabulary of the properties\<close>

text \<open>
  A topology the constructor accepts, whose sizes fit 32 bits: the length of the
  chromosome and the largest node id are below \<open>2 ^ 32\<close>.
\<close>

definition topology_ok :: "nat \<Rightarrow> nat \<Rightarrow> nat \<Rightarrow> nat \<Rightarrow> nat \<Rightarrow> nat \<Rightarrow> nat \<Rightarrow> bool" where
  "topology_ok n m r c l arity fsize \<longleftrightarrow>
     1 \<le> n \<and> 1 \<le> m \<and> 1 \<le> r \<and> 1 \<le> c \<and> 1 \<le> l \<and> 2 \<le> arity \<and> 1 \<le> fsize \<and>
     (arity + 1) * r * c + m < 4294967296 \<and> n + r * c \<le> 4294967296 \<and> fsize \<le> 4294967296"

text \<open>The object has the bounds its constructor computed for its topology.\<close>

definition well_formed :: "'u expression \<Rightarrow> bool" where
  "well_formed st \<longleftrightarrow>
     topology_ok (m_n st) (m_m st) (m_r st) (m_c st) (m_l st) (m_arity st) (length (m_f st)) \<and>
     gene_bounds (m_n st) (m_m st) (m_r st) (m_c st) (m_l st) (m_arity st) (length (m_f st))
       = Some (m_lb st, m_ub st)"

text \<open>
  The consistent state: the chromosome is within the bounds and the active sets are
  those of the chromosome.
\<close>

definition consistent :: "'u expression \<Rightarrow> bool" where
  "consistent st \<longleftrightarrow>
     well_formed st \<and> is_valid st (m_x st) = Some True \<and>
     map_option (\<lambda>s. (m_active_nodes s, m_active_genes s)) (update_active st)
       = Some (m_active_nodes st, m_active_genes st)"

text \<open>
  The active sets of the object are those a recomputation gives for its chromosome
  (the last part of \<^const>\<open>consistent\<close>, for an object that need not be well formed).
\<close>

definition recomputed :: "'u expression \<Rightarrow> bool" where
  "recomputed st \<longleftrightarrow>
     map_option (\<lambda>s. (m_active_nodes s, m_active_genes s)) (update_active st)
       = Some (m_active_nodes st, m_active_genes st)"

text \<open>
  The nodes reachable backward from the outputs: the targets of the \<open>m\<close> output genes,
  and the targets of the connection genes of every reachable internal node.
\<close>

inductive reachable :: "nat \<Rightarrow> nat \<Rightarrow> nat \<Rightarrow> nat \<Rightarrow> nat \<Rightarrow> nat list \<Rightarrow> nat \<Rightarrow> bool"
  for n m r c arity x where
  from_output: "i < m \<Longrightarrow> reachable n m r c arity x (x ! ((arity + 1) * r * c + i))"
| from_connection: "reachable n m r c arity x k \<Longrightarrow> n \<le> k \<Longrightarrow> 1 \<le> j \<Longrightarrow> j \<le> arity
     \<Longrightarrow> reachable n m r c arity x (x ! ((k - n) * (arity + 1) + j))"

text \<open>
  The value of a node: the input of that index for an input node, and for an internal
  node its function applied to the values of the targets of its connection genes. A
  target that is not below the node has no value of its own (\<open>dflt\<close>).
\<close>

function node_value :: "'u \<Rightarrow> 'u expression \<Rightarrow> 'u list \<Rightarrow> nat \<Rightarrow> 'u" where
  "node_value dflt st input k =
     (if k < m_n st then input ! k
      else (m_f st ! (m_x st ! ((k - m_n st) * (m_arity st + 1))))
             (map (\<lambda>j. if m_x st ! ((k - m_n st) * (m_arity st + 1) + j + 1) < k
                       then node_value dflt st input (m_x st ! ((k - m_n st) * (m_arity st + 1) + j + 1))
                       else dflt)
                  [0 ..< m_arity st]))"
  by pat_completeness auto
termination
  by (relation "measure (\<lambda>(dflt, st, input, k). k)") auto

text \<open>
  The bound of gene \<open>g\<close> as a formula of the topology: a function gene (the first of the
  \<open>arity + 1\<close> genes of a node) ranges over the functions, a connection gene of a node
  of column \<open>i\<close> over the nodes of the \<open>l\<close> columns before \<open>i\<close> (and the inputs when
  \<open>i < l\<close>), an output gene over the nodes of the last \<open>l\<close> columns (and the inputs when
  \<open>c < l\<close>).
\<close>

definition ub_gene :: "nat \<Rightarrow> nat \<Rightarrow> nat \<Rightarrow> nat \<Rightarrow> nat \<Rightarrow> nat \<Rightarrow> nat" where
  "ub_gene n r c arity fsize g =
     (if g < (arity + 1) * r * c then
        (if g mod (arity + 1) = 0 then fsize - 1 else n + (g div (arity + 1) div r) * r - 1)
      else n + r * c - 1)"

definition lb_gene :: "nat \<Rightarrow> nat \<Rightarrow> nat \<Rightarrow> nat \<Rightarrow> nat \<Rightarrow> nat \<Rightarrow> nat" where
  "lb_gene n r c l arity g =
     (if g < (arity + 1) * r * c then
        (if g mod (arity + 1) = 0 then 0
         else if g div (arity + 1) div r \<ge> l then n + r * (g div (arity + 1) div r - l) else 0)
      else if l \<le> c then n + r * (c - l) else 0)"

text \<open>The targets of the connection genes of node \<open>k\<close>, in the order of the genes.\<close>

definition targets :: "nat \<Rightarrow> nat \<Rightarrow> nat list \<Rightarrow> nat \<Rightarrow> nat list" where
  "targets n arity x k = map (\<lambda>j. x ! ((k - n) * (arity + 1) + j)) [1 ..< arity + 1]"

text \<open>The edges of the graph a chromosome encodes: from an internal node to the targets
  of its connection genes.\<close>

definition edges :: "nat \<Rightarrow> nat \<Rightarrow> nat list \<Rightarrow> (nat \<times> nat) set" where
  "edges n arity x = {(k, t). n \<le> k \<and> (\<exists>j. 1 \<le> j \<and> j \<le> arity \<and> t = x ! ((k - n) * (arity + 1) + j))}"

text \<open>
  What the bounds give the decoder: the chromosome has its length, an output gene
  points at a node, and a connection gene of a node points below the node.
\<close>

definition feed_forward :: "nat \<Rightarrow> nat \<Rightarrow> nat \<Rightarrow> nat \<Rightarrow> nat \<Rightarrow> nat list \<Rightarrow> bool" where
  "feed_forward n m r c arity x \<longleftrightarrow>
     length x = (arity + 1) * r * c + m \<and>
     (\<forall>i<m. x ! ((arity + 1) * r * c + i) < n + r * c) \<and>
     (\<forall>k j. n \<le> k \<and> k < n + r * c \<and> 1 \<le> j \<and> j \<le> arity \<longrightarrow> x ! ((k - n) * (arity + 1) + j) < k)"

text \<open>
  Gene \<open>g\<close> has been resampled between \<open>st\<close> and \<open>st'\<close>: the chromosome of \<open>st'\<close> is that of
  \<open>st\<close> with gene \<open>g\<close> replaced, the new value is within the bounds of the gene, and it
  differs from the old one when the bounds leave more than one value.
\<close>

definition mutated_at :: "nat \<Rightarrow> 'u expression \<Rightarrow> 'u expression \<Rightarrow> bool" where
  "mutated_at g st st' \<longleftrightarrow>
     g < length (m_x st) \<and> m_x st' = (m_x st)[g := m_x st' ! g] \<and>
     m_lb st ! g \<le> m_x st' ! g \<and> m_x st' ! g \<le> m_ub st ! g \<and>
     (m_lb st ! g = m_ub st ! g \<or> m_x st' ! g \<noteq> m_x st ! g)"

text \<open>
  One step of \<^verbatim>\<open>mutate_active\<close>: the distribution over all the positions
  \<open>0 .. size - 1\<close> of the active genes of the state draws a position from the engine of
  the state, \<^verbatim>\<open>mutate\<close> is called on the gene at that position with the engine after the
  draw, and the step leads to the state that call returns.
\<close>

definition active_step :: "'u expression \<Rightarrow> 'u expression \<Rightarrow> bool" where
  "active_step s s' \<longleftrightarrow>
     (case uniform_int_distribution 0 (length (m_active_genes s) - 1) (m_e s) of
        None \<Rightarrow> False
      | Some (p, e) \<Rightarrow> p < length (m_active_genes s) \<and>
                      mutate (m_active_genes s ! p) (s\<lparr>m_e := e\<rparr>) = Returns s')"

text \<open>
  An engine that, from any point on and for any range of at least two values, yields at
  some draw a value other than any given one. The loop of \<^verbatim>\<open>mutate\<close> ends on such an
  engine.
\<close>

definition fair :: "nat stream \<Rightarrow> bool" where
  "fair e \<longleftrightarrow> (\<forall>k lo hi cur. lo < hi \<longrightarrow> (\<exists>j. lo + (sdrop k e !! j) mod (hi - lo + 1) \<noteq> cur))"

section \<open>Scenarios\<close>

text \<open>
  Modelled from the spec: the basis function \<^verbatim>\<open>add\<close> (the kernels of
  \<^verbatim>\<open>dcgp/kernel.hpp\<close> are not among the sources). It adds its arguments.
\<close>

definition add :: "real list \<Rightarrow> real" where
  "add xs = sum_list xs"

text \<open>
  The object with \<open>n = 2\<close>, \<open>m = 1\<close>, \<open>r = 1\<close>, \<open>c = 1\<close>, \<open>l = 1\<close>, \<open>arity = 2\<close>, the one
  function \<^verbatim>\<open>add\<close> and the chromosome \<open>[0, 0, 1, 2]\<close>, with an engine \<open>e\<close>.
\<close>

definition scenario :: "nat stream \<Rightarrow> real expression" where
  "scenario e =
     \<lparr>m_n = 2, m_m = 1, m_r = 1, m_c = 1, m_l = 1, m_arity = 2, m_f = [add],
      m_lb = [0, 0, 0, 2], m_ub = [0, 1, 1, 2],
      m_active_nodes = [0, 1, 2], m_active_genes = [0, 1, 2, 3],
      m_x = [0, 0, 1, 2], m_e = e\<rparr>"

text \<open>
  The same object with \<open>l = 2\<close> levels back, where the output gene may point at an
  input, and the chromosome \<open>[0, 0, 0, 0]\<close>.
\<close>

definition scenario_l2 :: "nat stream \<Rightarrow> real expression" where
  "scenario_l2 e =
     \<lparr>m_n = 2, m_m = 1, m_r = 1, m_c = 1, m_l = 2, m_arity = 2, m_f = [add],
      m_lb = [0, 0, 0, 0], m_ub = [0, 1, 1, 2],
      m_active_nodes = [0], m_active_genes = [3],
      m_x = [0, 0, 0, 0], m_e = e\<rparr>"


text \<open>
  An object with two columns: \<open>n = 2\<close>, \<open>m = 1\<close>, \<open>r = 1\<close>, \<open>c = 2\<close>, \<open>l = 2\<close>, \<open>arity = 2\<close>,
  the one function \<^verbatim>\<open>add\<close> and the chromosome \<open>[0, 0, 0, 0, 0, 0, 3]\<close>: the output is
  node 3, whose two connections are input 0.
\<close>

definition two_columns :: "nat stream \<Rightarrow> real expression" where
  "two_columns e =
     \<lparr>m_n = 2, m_m = 1, m_r = 1, m_c = 2, m_l = 2, m_arity = 2, m_f = [add],
      m_lb = [0, 0, 0, 0, 0, 0, 2], m_ub = [0, 1, 1, 0, 2, 2, 3],
      m_active_nodes = [0, 3], m_active_genes = [3, 4, 5, 6],
      m_x = [0, 0, 0, 0, 0, 0, 3], m_e = e\<rparr>"

section \<open>Evaluating the definitions on concrete objects\<close>

lemma replicate_numeral: "replicate (numeral k) a = a # replicate (pred_numeral k) a"
  by (simp add: numeral_eq_Suc)

lemma list_update_Cons_numeral: "(a # as)[numeral k := b] = a # as[pred_numeral k := b]"
  by (simp add: numeral_eq_Suc)

lemmas eval_simps = vec_at_def vec_set_def u32_def usub_def upt_conv_Cons nth_Cons'
  replicate_numeral list_update_Cons_numeral
  scan_current_def push_connections_def active_loop.simps update_active_def
  fgene_loop.simps output_gene_bounds_def connection_gene_bounds_def gene_bounds_def
  is_valid_def topology_ok_def well_formed_def consistent_def
  uniform_int_distribution_def resample.simps lift_def and_then_def

lemma consistent_scenario: "consistent (scenario e)"
  by (simp add: scenario_def eval_simps)

lemma consistent_scenario_l2: "consistent (scenario_l2 e)"
  by (simp add: scenario_l2_def eval_simps)


lemma consistent_two_columns: "consistent (two_columns e)"
  by (simp add: two_columns_def eval_simps)

section \<open>The bounds of the constructor in closed form\<close>

lemma u32_id: "k < 4294967296 \<Longrightarrow> u32 k = k"
  by (simp add: u32_def)

lemma usub_one: "0 < a \<Longrightarrow> a \<le> 4294967296 \<Longrightarrow> usub (u32 a) 1 = a - 1"
proof (cases "a = 4294967296")
  case True
  then show ?thesis by (simp add: usub_def u32_def)
next
  case False
  assume a: "0 < a" "a \<le> 4294967296"
  with False have lt: "a < 4294967296" by simp
  from a obtain k where k: "a = Suc k" by (cases a) auto
  have "(k + 4294967296) mod 4294967296 = k" using lt k by (simp del: One_nat_def)
  moreover have "Suc k + 4294967296 - 1 = k + 4294967296" by simp
  ultimately have "(Suc k + 4294967296 - 1) mod 4294967296 = k" by (simp only:)
  then show ?thesis using lt k by (simp add: usub_def u32_def)
qed

lemma for_each_append:
  "for_each (xs @ ys) body s = (case for_each xs body s of None \<Rightarrow> None | Some s' \<Rightarrow> for_each ys body s')"
  by (induction xs arbitrary: s) (auto split: option.splits)

lemma for_each_upt_rule:
  assumes "a \<le> b" and "I a s"
    and "\<And>i s. a \<le> i \<Longrightarrow> i < b \<Longrightarrow> I i s \<Longrightarrow> \<exists>s'. body i s = Some s' \<and> I (Suc i) s'"
  shows "\<exists>s'. for_each [a ..< b] body s = Some s' \<and> I b s'"
  using assms(1)
proof (induction rule: dec_induct)
  case base
  show ?case using assms(2) by simp
next
  case (step k)
  then obtain s1 where s1: "for_each [a ..< k] body s = Some s1" "I k s1" by blast
  from assms(3)[OF step.hyps(1,2) s1(2)] obtain s2 where "body k s1 = Some s2" "I (Suc k) s2" by blast
  with s1 step.hyps show ?case by (simp add: for_each_append)
qed

lemma fgene_loop_closed:
  assumes "0 < s" "s * N < 4294967296" "s * N \<le> length ub" "j \<le> N"
  shows "fgene_loop (s * j) (s * N) s v ub =
           Some (map (\<lambda>g. if s * j \<le> g \<and> g < s * N \<and> g mod s = 0 then v else ub ! g) [0 ..< length ub])"
  using assms(3,4)
proof (induction "N - j" arbitrary: j ub)
  case 0
  then have "j = N" by simp
  then show ?case by (subst fgene_loop.simps) (auto intro!: nth_equalityI)
next
  case (Suc d)
  then have lt: "j < N" by simp
  with assms(1) have lt': "s * j < s * N" by simp
  have le: "s * Suc j \<le> s * N" using lt by (metis Suc_leI mult_le_mono2)
  have ih: "fgene_loop (s * Suc j) (s * N) s v (ub[s * j := v]) =
           Some (map (\<lambda>g. if s * Suc j \<le> g \<and> g < s * N \<and> g mod s = 0 then v else ub[s * j := v] ! g) [0 ..< length (ub[s * j := v])])"
    using Suc by (intro Suc.hyps(1)) auto
  have step: "u32 (s * j + s) = s * Suc j"
    using le assms(2) by (simp add: u32_id)
  have aux: "\<And>g. g mod s = 0 \<Longrightarrow> s * j \<le> g \<Longrightarrow> g \<noteq> s * j \<Longrightarrow> s * Suc j \<le> g"
  proof -
    fix g assume a: "g mod s = 0" "s * j \<le> g" "g \<noteq> s * j"
    then obtain q where q: "g = s * q" by (meson dvdE mod_0_imp_dvd)
    with a assms(1) have "j < q" by (metis le_neq_implies_less mult_le_cancel1)
    then show "s * Suc j \<le> g" unfolding q by (metis Suc_leI mult_le_mono2)
  qed
  have "map (\<lambda>g. if s * Suc j \<le> g \<and> g < s * N \<and> g mod s = 0 then v else ub[s * j := v] ! g) [0 ..< length ub]
      = map (\<lambda>g. if s * j \<le> g \<and> g < s * N \<and> g mod s = 0 then v else ub ! g) [0 ..< length ub]"
    using aux lt assms(1) by (auto simp: nth_list_update simp del: mult_Suc_right)
  moreover have inr: "s * j < length ub" using lt' Suc.prems(1) by (rule less_le_trans)
  ultimately show ?case using ih step lt'
    by (subst fgene_loop.simps) (simp add: vec_set_def del: mult_Suc_right)
qed


lemma output_gene_bounds_closed:
  assumes len: "length lb = P + m" "length ub = P + m" and P: "P = (arity + 1) * r * c" "P + m < 4294967296"
    and n: "0 < n" "n + r * c \<le> 4294967296" and l: "0 < l" "0 < r"
  shows "\<exists>lb' ub'. output_gene_bounds n r c l arity (lb, ub) = Some (lb', ub') \<and>
           length lb' = P + m \<and> length ub' = P + m \<and>
           (\<forall>g<P + m. ub' ! g = (if P \<le> g then n + r * c - 1 else ub ! g) \<and>
                       lb' ! g = (if P \<le> g \<and> l \<le> c then n + r * (c - l) else lb ! g))"
proof -
  define I where "I = (\<lambda>i (s :: nat list \<times> nat list).
      length (fst s) = P + m \<and> length (snd s) = P + m \<and>
      (\<forall>g<P + m. snd s ! g = (if P \<le> g \<and> g < i then n + r * c - 1 else ub ! g) \<and>
                  fst s ! g = (if P \<le> g \<and> g < i \<and> l \<le> c then n + r * (c - l) else lb ! g)))"
  define body where "body = (\<lambda>i (lb, ub). do {
          ub' \<leftarrow> vec_set ub i (usub (u32 (n + r * c)) 1);
          lb' \<leftarrow> (if l \<le> c then vec_set lb i (u32 (n + r * (c - l))) else Some lb);
          Some (lb', ub') })"
  have v1: "usub (u32 (n + r * c)) 1 = n + r * c - 1"
    using n by (intro usub_one) auto
  have v2: "l \<le> c \<Longrightarrow> u32 (n + r * (c - l)) = n + r * (c - l)"
  proof -
    assume "l \<le> c"
    have "r * (c - l) < r * c" using l \<open>l \<le> c\<close> by simp
    then have "n + r * (c - l) < 4294967296" using n by linarith
    then show ?thesis by (rule u32_id)
  qed
  have "\<exists>s'. for_each [P ..< P + m] body (lb, ub) = Some s' \<and> I (P + m) s'"
  proof (rule for_each_upt_rule)
    show "P \<le> P + m" by simp
    show "I P (lb, ub)" using len by (simp add: I_def)
  next
    fix i s assume i: "P \<le> i" "i < P + m" and inv: "I i s"
    obtain lb1 ub1 where s: "s = (lb1, ub1)" by (cases s)
    show "\<exists>s'. body i s = Some s' \<and> I (Suc i) s'"
      using i inv v1 unfolding s I_def body_def
      by (auto simp: vec_set_def v2 nth_list_update less_Suc_eq)
  qed
  then show ?thesis using len P
    by (auto simp: output_gene_bounds_def u32_id I_def body_def)
qed


lemma connection_gene_bounds_closed:
  assumes len: "length lb = P + m" "length ub = P + m" and P: "P = (arity + 1) * r * c" "P + m < 4294967296"
    and n: "0 < n" "n + r * c \<le> 4294967296" and l: "0 < l" "0 < r"
  shows "\<exists>lb' ub'. connection_gene_bounds n r c l arity (lb, ub) = Some (lb', ub') \<and>
           length lb' = P + m \<and> length ub' = P + m \<and>
           (\<forall>g<P + m. ub' ! g = (if g mod (arity + 1) \<noteq> 0 \<and> g < P then n + (g div (arity + 1) div r) * r - 1 else ub ! g) \<and>
                       lb' ! g = (if g mod (arity + 1) \<noteq> 0 \<and> g < P \<and> l \<le> g div (arity + 1) div r
                                  then n + r * (g div (arity + 1) div r - l) else lb ! g))"
proof -
  define Inv where "Inv = (\<lambda>t (s :: nat list \<times> nat list).
      length (fst s) = P + m \<and> length (snd s) = P + m \<and>
      (\<forall>g<P + m. snd s ! g = (if g mod (arity + 1) \<noteq> 0 \<and> g < t then n + (g div (arity + 1) div r) * r - 1 else ub ! g) \<and>
                  fst s ! g = (if g mod (arity + 1) \<noteq> 0 \<and> g < t \<and> l \<le> g div (arity + 1) div r
                                  then n + r * (g div (arity + 1) div r - l) else lb ! g)))"
  define body where "body = (\<lambda>i j k (lb, ub). do {
           ub' \<leftarrow> vec_set ub (u32 (((i * r) + j) * (arity + 1) + k + 1)) (usub (u32 (n + i * r)) 1);
           lb' \<leftarrow> (if i \<ge> l then vec_set lb (u32 (((i * r) + j) * (arity + 1) + k + 1)) (u32 (n + r * (i - l)))
                   else Some lb);
           Some (lb', ub') })"
  have skip: "Inv (Suc t) st" if "Inv t st" "t mod (arity + 1) = 0" for t st
    using that by (auto simp: Inv_def less_Suc_eq)
  have inner: "\<exists>st'. for_each [0 ..< arity] (body i j) st = Some st' \<and> Inv ((i * r + Suc j) * (arity + 1)) st'"
    if ij: "i < c" "j < r" and inv: "Inv ((i * r + j) * (arity + 1)) st" for i j st
  proof -
    have node: "i * r + j < r * c"
    proof -
      have "i * r + j < Suc i * r" using ij by simp
      also have "\<dots> \<le> c * r" using ij by (intro mult_le_mono1) simp
      finally show ?thesis by (simp add: mult.commute)
    qed
    have ir: "i * r < r * c" using node by (rule le_less_trans[rotated]) simp
    have v1: "usub (u32 (n + i * r)) 1 = n + i * r - 1"
      using n ir by (intro usub_one; linarith)
    have v2: "u32 (n + r * (i - l)) = n + r * (i - l)"
    proof -
      have "r * (i - l) \<le> i * r" by (simp add: mult.commute)
      then have "n + r * (i - l) < 4294967296" using n ir by linarith
      then show ?thesis by (rule u32_id)
    qed
    have "\<exists>st'. for_each [0 ..< arity] (body i j) st = Some st' \<and> Inv ((i * r + j) * (arity + 1) + arity + 1) st'"
    proof (rule for_each_upt_rule[where I = "\<lambda>k. Inv ((i * r + j) * (arity + 1) + k + 1)"])
      show "0 \<le> arity" by simp
      have "(i * r + j) * (arity + 1) mod (arity + 1) = 0" by (rule mod_mult_self2_is_0)
      from skip[OF inv this] show "Inv ((i * r + j) * (arity + 1) + 0 + 1) st" by simp
    next
      fix k st1 assume k: "0 \<le> k" "k < arity" and inv1: "Inv ((i * r + j) * (arity + 1) + k + 1) st1"
      obtain lb1 ub1 where st1: "st1 = (lb1, ub1)" by (cases st1)
      define g0 where "g0 = (i * r + j) * (arity + 1) + k + 1"
      have "(i * r + j) * (arity + 1) + (arity + 1) \<le> r * c * (arity + 1)"
        using node by (metis Suc_leI mult_Suc mult_le_mono1 add.commute)
      then have g0P: "g0 < P" using k by (simp add: g0_def P(1) mult.commute mult.left_commute)
      then have g0lt: "g0 < P + m" "g0 < 4294967296" using P(2) by auto
      have g0eq: "g0 = (k + 1) + (i * r + j) * (arity + 1)" by (simp add: g0_def)
      have "g0 mod (arity + 1) = (k + 1) mod (arity + 1)"
        unfolding g0eq by (rule mod_mult_self1)
      with k have g0mod: "g0 mod (arity + 1) = k + 1" by simp
      have "g0 div (arity + 1) = (i * r + j) + (k + 1) div (arity + 1)"
        unfolding g0eq by (rule div_mult_self1) simp
      with k have g0d: "g0 div (arity + 1) = j + i * r" by simp
      have "(j + i * r) div r = i + j div r" by (rule div_mult_self1) (use l in simp)
      with ij g0d have g0div: "g0 div (arity + 1) div r = i" by simp
      have wr: "body i j k st1 =
        Some (if l \<le> i then lb1[g0 := n + r * (i - l)] else lb1, ub1[g0 := n + i * r - 1])"
        using inv1 g0lt v1 unfolding st1 body_def g0_def[symmetric] Inv_def
        by (simp add: vec_set_def u32_id v2)
      have "Inv (Suc g0) (if l \<le> i then lb1[g0 := n + r * (i - l)] else lb1, ub1[g0 := n + i * r - 1])"
        using inv1 g0lt g0mod g0div unfolding st1 g0_def[symmetric] Inv_def
        by (auto simp: nth_list_update less_Suc_eq)
      then show "\<exists>s'. body i j k st1 = Some s' \<and> Inv ((i * r + j) * (arity + 1) + Suc k + 1) s'"
        using wr by (simp add: g0_def)
    qed
    then show ?thesis by (simp add: algebra_simps)
  qed
  have middle: "\<exists>st'. for_each [0 ..< r] (\<lambda>j. for_each [0 ..< arity] (body i j)) st = Some st' \<and> Inv (Suc i * r * (arity + 1)) st'"
    if i: "i < c" and inv: "Inv (i * r * (arity + 1)) st" for i st
  proof -
    have "\<exists>st'. for_each [0 ..< r] (\<lambda>j. for_each [0 ..< arity] (body i j)) st = Some st' \<and> Inv ((i * r + r) * (arity + 1)) st'"
    proof (rule for_each_upt_rule[where I = "\<lambda>j. Inv ((i * r + j) * (arity + 1))"])
      show "0 \<le> r" by simp
      show "Inv ((i * r + 0) * (arity + 1)) st" using inv by simp
    next
      fix j st1 assume "0 \<le> j" "j < r" "Inv ((i * r + j) * (arity + 1)) st1"
      then show "\<exists>s'. for_each [0 ..< arity] (body i j) st1 = Some s' \<and> Inv ((i * r + Suc j) * (arity + 1)) s'"
        using inner[OF i] by blast
    qed
    then show ?thesis by (simp add: algebra_simps)
  qed
  have "\<exists>st'. for_each [0 ..< c] (\<lambda>i. for_each [0 ..< r] (\<lambda>j. for_each [0 ..< arity] (body i j))) (lb, ub) = Some st'
          \<and> Inv (c * r * (arity + 1)) st'"
  proof (rule for_each_upt_rule[where I = "\<lambda>i. Inv (i * r * (arity + 1))"])
    show "0 \<le> c" by simp
    show "Inv (0 * r * (arity + 1)) (lb, ub)" using len by (simp add: Inv_def)
  next
    fix i st1 assume "0 \<le> i" "i < c" "Inv (i * r * (arity + 1)) st1"
    then show "\<exists>s'. for_each [0 ..< r] (\<lambda>j. for_each [0 ..< arity] (body i j)) st1 = Some s' \<and> Inv (Suc i * r * (arity + 1)) s'"
      using middle by blast
  qed
  moreover have "c * r * (arity + 1) = P" by (simp add: P(1) mult.commute mult.left_commute)
  ultimately show ?thesis
    by (auto simp: connection_gene_bounds_def body_def Inv_def)
qed


lemma gene_bounds_closed:
  assumes "topology_ok n m r c l arity fsize"
  shows "gene_bounds n m r c l arity fsize =
           Some (map (lb_gene n r c l arity) [0 ..< (arity + 1) * r * c + m],
                 map (ub_gene n r c arity fsize) [0 ..< (arity + 1) * r * c + m])"
proof -
  define P where "P = (arity + 1) * r * c"
  have t: "0 < n" "0 < r" "0 < l" "0 < fsize" "P + m < 4294967296" "n + r * c \<le> 4294967296"
    "fsize \<le> 4294967296"
    using assms by (auto simp: topology_ok_def P_def)
  have Pm: "P = (arity + 1) * (r * c)" unfolding P_def by (rule mult.assoc)
  have f1: "fgene_loop 0 P (arity + 1) (fsize - 1) (replicate (P + m) 0) =
           Some (map (\<lambda>g. if g < P \<and> g mod (arity + 1) = 0 then fsize - 1 else 0) [0 ..< P + m])"
    using fgene_loop_closed[of "arity + 1" "r * c" "replicate (P + m) 0" 0 "fsize - 1", folded Pm] t(5)
    by (simp cong: map_cong)
  define ub1 where "ub1 = map (\<lambda>g. if g < P \<and> g mod (arity + 1) = 0 then fsize - 1 else 0) [0 ..< P + m]"
  obtain lb2 ub2 where o: "output_gene_bounds n r c l arity (replicate (P + m) 0, ub1) = Some (lb2, ub2)"
      "length lb2 = P + m" "length ub2 = P + m"
      "\<forall>g<P + m. ub2 ! g = (if P \<le> g then n + r * c - 1 else ub1 ! g) \<and>
                       lb2 ! g = (if P \<le> g \<and> l \<le> c then n + r * (c - l) else replicate (P + m) 0 ! g)"
    using output_gene_bounds_closed[of "replicate (P + m) 0" P m ub1 arity r c n l] t
    by (auto simp: ub1_def P_def)
  obtain lb3 ub3 where c: "connection_gene_bounds n r c l arity (lb2, ub2) = Some (lb3, ub3)"
      "length lb3 = P + m" "length ub3 = P + m"
      "\<forall>g<P + m. ub3 ! g = (if g mod (arity + 1) \<noteq> 0 \<and> g < P then n + (g div (arity + 1) div r) * r - 1 else ub2 ! g) \<and>
                       lb3 ! g = (if g mod (arity + 1) \<noteq> 0 \<and> g < P \<and> l \<le> g div (arity + 1) div r
                                  then n + r * (g div (arity + 1) div r - l) else lb2 ! g)"
    using connection_gene_bounds_closed[of lb2 P m ub2 arity r c n l] t o(2,3)
    by (auto simp: P_def)
  have "lb3 = map (lb_gene n r c l arity) [0 ..< P + m]"
    using c(2,4) o(4) by (intro nth_equalityI) (auto simp: lb_gene_def P_def)
  moreover have "ub3 = map (ub_gene n r c arity fsize) [0 ..< P + m]"
    using c(3,4) o(4) by (intro nth_equalityI) (auto simp: ub_gene_def ub1_def P_def)
  moreover have "u32 (fsize - 1) = fsize - 1" "u32 P = P" "u32 (P + m) = P + m" "u32 (arity + 1) = arity + 1"
  proof -
    show "u32 (fsize - 1) = fsize - 1" using t by (intro u32_id) linarith
    show "u32 P = P" using t by (intro u32_id) linarith
    show "u32 (P + m) = P + m" using t by (intro u32_id)
    have "1 \<le> r * c" using assms by (simp add: topology_ok_def)
    then have "(arity + 1) * 1 \<le> (arity + 1) * (r * c)" by (rule mult_le_mono2)
    then have "arity + 1 \<le> P" unfolding Pm by simp
    then show "u32 (arity + 1) = arity + 1" using t by (intro u32_id) linarith
  qed
  ultimately show ?thesis
    using f1 o(1) c(1) unfolding gene_bounds_def P_def[symmetric] ub1_def[symmetric]
    by simp
qed

section \<open>The loop of update\_active on a chromosome within the bounds\<close>

lemma sorted_distinct_adj: "sorted xs \<Longrightarrow> distinct_adj xs \<Longrightarrow> distinct (xs :: nat list)"
proof (induction xs rule: induct_list012)
  case (3 x y zs)
  then have "x < y" by (simp add: distinct_adj_Cons)
  moreover from 3 have "\<forall>z\<in>set zs. y \<le> z" by simp
  ultimately have "x \<notin> set (y # zs)" by auto
  moreover from 3 have "distinct (y # zs)" by (simp add: distinct_adj_Cons)
  ultimately show ?case by simp
qed simp_all

lemma distinct_remdups_adj_sort: "distinct (remdups_adj (sort (xs :: nat list)))"
  by (rule sorted_distinct_adj) simp_all

lemma rtrancl_Image_step: "R\<^sup>* `` S = S \<union> R\<^sup>* `` (R `` S)"
proof
  show "R\<^sup>* `` S \<subseteq> S \<union> R\<^sup>* `` (R `` S)"
  proof
    fix t assume "t \<in> R\<^sup>* `` S"
    then obtain k where k: "k \<in> S" "(k, t) \<in> R\<^sup>*" by blast
    from k(2) show "t \<in> S \<union> R\<^sup>* `` (R `` S)"
      using k(1) by (cases rule: converse_rtranclE) blast+
  qed
  show "S \<union> R\<^sup>* `` (R `` S) \<subseteq> R\<^sup>* `` S"
    by (blast intro: converse_rtrancl_into_rtrancl)
qed

lemma for_each_collect:
  assumes "\<forall>i\<in>set xs. f i < length x"
  shows "for_each xs (\<lambda>i acc. do { g \<leftarrow> vec_at x (f i); Some (acc @ [g]) }) acc
           = Some (acc @ map (\<lambda>i. x ! f i) xs)"
  using assms by (induction xs arbitrary: acc) (auto simp: vec_at_def)


lemma set_targets: "set (targets n arity x k) = {t. \<exists>j. 1 \<le> j \<and> j \<le> arity \<and> t = x ! ((k - n) * (arity + 1) + j)}"
  by (auto simp: targets_def)

lemma push_connections_closed:
  assumes "(k - n) * (arity + 1) + arity < length x"
  shows "push_connections n arity x k nxt = Some (nxt @ targets n arity x k)"
  unfolding push_connections_def targets_def
  using assms by (intro for_each_collect) auto

lemma scan_current_closed:
  assumes "\<forall>k\<in>set current. n \<le> k \<longrightarrow> (k - n) * (arity + 1) + arity < length x"
  shows "scan_current n arity x current (active, nxt)
           = Some (active @ filter (\<lambda>k. k < n) current,
                   nxt @ concat (map (targets n arity x) (filter (\<lambda>k. n \<le> k) current)))"
  using assms unfolding scan_current_def
  by (induction current arbitrary: active nxt) (auto simp: push_connections_closed)

lemma edges_iff: "(k, t) \<in> edges n arity x \<longleftrightarrow> n \<le> k \<and> t \<in> set (targets n arity x k)"
  unfolding edges_def set_targets by simp

lemma set_successors:
  "set (concat (map (targets n arity x) (filter (\<lambda>k. n \<le> k) current))) = edges n arity x `` set current"
proof (rule set_eqI)
  fix t
  have "t \<in> set (concat (map (targets n arity x) (filter (\<lambda>k. n \<le> k) current)))
        \<longleftrightarrow> (\<exists>k\<in>set current. n \<le> k \<and> t \<in> set (targets n arity x k))"
    by auto
  also have "\<dots> \<longleftrightarrow> (\<exists>k\<in>set current. (k, t) \<in> edges n arity x)"
    by (simp only: edges_iff)
  also have "\<dots> \<longleftrightarrow> t \<in> edges n arity x `` set current"
    by blast
  finally show "t \<in> set (concat (map (targets n arity x) (filter (\<lambda>k. n \<le> k) current)))
        \<longleftrightarrow> t \<in> edges n arity x `` set current" .
qed

lemma active_loop_closed:
  assumes len: "\<forall>k<N. n \<le> k \<longrightarrow> (k - n) * (arity + 1) + arity < length x"
    and dec: "\<forall>k t. k < N \<and> (k, t) \<in> edges n arity x \<longrightarrow> t < k"
  shows "B \<le> N \<Longrightarrow> \<forall>k\<in>set current. k < B \<Longrightarrow>
         \<exists>res. active_loop n arity x current active = Some res \<and>
               set res = set active \<union> (edges n arity x)\<^sup>* `` set current"
proof (induction B arbitrary: current active rule: less_induct)
  case (less B)
  define succs where "succs = concat (map (targets n arity x) (filter (\<lambda>k. n \<le> k) current))"
  define active' where "active' = (active @ current) @ filter (\<lambda>k. k < n) current"
  have scan: "scan_current n arity x current (active @ current, []) = Some (active', succs)"
    using less.prems len by (subst scan_current_closed) (auto simp: succs_def active'_def)
  have succs: "set (remdups_adj (sort succs)) = edges n arity x `` set current"
    unfolding succs_def remdups_adj_set set_sort by (rule set_successors)
  have act: "set active' = set active \<union> set current"
    by (auto simp: active'_def)
  show ?case
  proof (cases "remdups_adj (sort succs) = []")
    case True
    then have "edges n arity x `` set current = {}" using succs by simp
    then have "(edges n arity x)\<^sup>* `` set current = set current \<union> (edges n arity x)\<^sup>* `` {}"
      by (subst rtrancl_Image_step) (simp only:)
    then have "(edges n arity x)\<^sup>* `` set current = set current"
      by simp
    then show ?thesis using scan True act
      by (subst active_loop.simps) simp
  next
    case False
    then obtain t0 where "t0 \<in> edges n arity x `` set current" using succs
      by (metis all_not_in_conv set_empty)
    then have "0 < B" using less.prems(2) by auto
    have below: "\<forall>t\<in>set (remdups_adj (sort succs)). t < B - 1"
    proof
      fix t assume "t \<in> set (remdups_adj (sort succs))"
      then obtain k where k: "k \<in> set current" "(k, t) \<in> edges n arity x" using succs by auto
      then have "k < B" using less.prems(2) by simp
      moreover then have "t < k" using dec k(2) less.prems(1) by (meson less_le_trans)
      ultimately show "t < B - 1" by simp
    qed
    have "\<exists>res. active_loop n arity x (remdups_adj (sort succs)) active' = Some res \<and>
               set res = set active' \<union> (edges n arity x)\<^sup>* `` set (remdups_adj (sort succs))"
      using \<open>0 < B\<close> less.prems(1) below by (intro less.IH[of "B - 1"]) auto
    then obtain res where res: "active_loop n arity x (remdups_adj (sort succs)) active' = Some res"
      "set res = set active' \<union> (edges n arity x)\<^sup>* `` set (remdups_adj (sort succs))" by blast
    have "(edges n arity x)\<^sup>* `` set current
            = set current \<union> (edges n arity x)\<^sup>* `` (edges n arity x `` set current)"
      by (rule rtrancl_Image_step)
    then have "set res = set active \<union> (edges n arity x)\<^sup>* `` set current"
      unfolding res(2) act succs by (simp only: Un_assoc)
    then show ?thesis using scan False res(1)
      by (subst active_loop.simps) simp
  qed
qed

section \<open>Validity and the active sets\<close>

lemma check_bounds_closed:
  "\<forall>i\<in>set is. i < length ub \<and> i < length lb \<Longrightarrow>
   check_bounds lb ub x is = Some (\<forall>i\<in>set is. lb ! i \<le> x ! i \<and> x ! i \<le> ub ! i)"
  by (induction "is") (auto simp: vec_at_def)

lemma well_formed_bounds:
  assumes "well_formed st"
  shows "m_lb st = map (lb_gene (m_n st) (m_r st) (m_c st) (m_l st) (m_arity st))
                     [0 ..< (m_arity st + 1) * m_r st * m_c st + m_m st]"
    and "m_ub st = map (ub_gene (m_n st) (m_r st) (m_c st) (m_arity st) (length (m_f st)))
                     [0 ..< (m_arity st + 1) * m_r st * m_c st + m_m st]"
  using assms gene_bounds_closed[of "m_n st" "m_m st" "m_r st" "m_c st" "m_l st" "m_arity st" "length (m_f st)"]
  by (simp_all add: well_formed_def)

lemma well_formed_lengths:
  assumes "well_formed st"
  shows "length (m_lb st) = (m_arity st + 1) * m_r st * m_c st + m_m st"
    and "length (m_ub st) = (m_arity st + 1) * m_r st * m_c st + m_m st"
  by (subst well_formed_bounds[OF assms], simp)+

lemma is_valid_closed:
  assumes "well_formed st"
  shows "is_valid st x = Some (length x = (m_arity st + 1) * m_r st * m_c st + m_m st \<and>
           (\<forall>i<length x. m_lb st ! i \<le> x ! i \<and> x ! i \<le> m_ub st ! i))"
proof (cases "length x = length (m_lb st)")
  case True
  then show ?thesis
    using well_formed_lengths[OF assms]
    by (auto simp add: is_valid_def check_bounds_closed)
next
  case False
  then show ?thesis
    using well_formed_lengths[OF assms] by (simp add: is_valid_def)
qed

lemma node_gene_index:
  fixes q j arity :: nat
  assumes "j \<le> arity"
  shows "(q * (arity + 1) + j) div (arity + 1) = q" "(q * (arity + 1) + j) mod (arity + 1) = j"
proof -
  have "(j + q * (arity + 1)) div (arity + 1) = q + j div (arity + 1)"
    by (rule div_mult_self1) simp
  then show "(q * (arity + 1) + j) div (arity + 1) = q" using assms by (simp add: add.commute)
  have "(j + q * (arity + 1)) mod (arity + 1) = j mod (arity + 1)"
    by (rule mod_mult_self1)
  then show "(q * (arity + 1) + j) mod (arity + 1) = j" using assms by (simp add: add.commute)
qed

lemma node_gene_below:
  fixes q j arity r c :: nat
  assumes "q < r * c" "j \<le> arity"
  shows "q * (arity + 1) + j < (arity + 1) * r * c"
proof -
  have "q * (arity + 1) + j < Suc q * (arity + 1)" using assms(2) by simp
  also have "\<dots> \<le> (r * c) * (arity + 1)" using assms(1) by (intro mult_le_mono1) simp
  finally show ?thesis by (simp add: mult.commute mult.left_commute)
qed

lemma bounds_feed_forward:
  assumes top: "topology_ok n m r c l arity fsize"
    and len: "length x = (arity + 1) * r * c + m"
    and ub: "\<forall>g<(arity + 1) * r * c + m. x ! g \<le> ub_gene n r c arity fsize g"
  shows "feed_forward n m r c arity x"
  unfolding feed_forward_def
proof (intro conjI allI impI)
  show "length x = (arity + 1) * r * c + m" by (rule len)
next
  fix i assume "i < m"
  then have "x ! ((arity + 1) * r * c + i) \<le> n + r * c - 1"
    using ub[rule_format, of "(arity + 1) * r * c + i"] by (simp add: ub_gene_def)
  moreover have "0 < n" using top by (simp add: topology_ok_def)
  ultimately show "x ! ((arity + 1) * r * c + i) < n + r * c" by linarith
next
  fix k j assume a: "n \<le> k \<and> k < n + r * c \<and> 1 \<le> j \<and> j \<le> arity"
  define q where "q = k - n"
  have q: "q < r * c" using a unfolding q_def by linarith
  have n: "0 < n" "0 < r" using top by (simp_all add: topology_ok_def)
  have gP: "q * (arity + 1) + j < (arity + 1) * r * c" using q a by (intro node_gene_below) auto
  have gm: "(q * (arity + 1) + j) mod (arity + 1) = j" "(q * (arity + 1) + j) div (arity + 1) = q"
    using a node_gene_index[of j arity q] by auto
  have "x ! (q * (arity + 1) + j) \<le> ub_gene n r c arity fsize (q * (arity + 1) + j)"
    using ub gP by simp
  also have "\<dots> = n + (q div r) * r - 1"
    using gP gm a by (simp add: ub_gene_def)
  also have "\<dots> < n + q"
  proof -
    have "q div r * r \<le> q" by simp
    then show ?thesis using n(1) by linarith
  qed
  also have "\<dots> = k" using a by (simp add: q_def)
  finally show "x ! ((k - n) * (arity + 1) + j) < k" by (simp add: q_def)
qed

lemma valid_feed_forward:
  assumes "well_formed st" "is_valid st x = Some True"
  shows "feed_forward (m_n st) (m_m st) (m_r st) (m_c st) (m_arity st) x"
proof -
  have v: "length x = (m_arity st + 1) * m_r st * m_c st + m_m st"
    "\<forall>i<length x. x ! i \<le> m_ub st ! i"
    using assms by (simp_all add: is_valid_closed)
  show ?thesis
  proof (rule bounds_feed_forward)
    show "topology_ok (m_n st) (m_m st) (m_r st) (m_c st) (m_l st) (m_arity st) (length (m_f st))"
      using assms(1) by (simp add: well_formed_def)
    show "length x = (m_arity st + 1) * m_r st * m_c st + m_m st" by (rule v(1))
    show "\<forall>g<(m_arity st + 1) * m_r st * m_c st + m_m st.
            x ! g \<le> ub_gene (m_n st) (m_r st) (m_c st) (m_arity st) (length (m_f st)) g"
      using v by (simp add: well_formed_bounds(2)[OF assms(1)])
  qed
qed


lemma reachable_iff:
  "reachable n m r c arity x k \<longleftrightarrow>
     (\<exists>i<m. (x ! ((arity + 1) * r * c + i), k) \<in> (edges n arity x)\<^sup>*)"
proof
  assume "reachable n m r c arity x k"
  then show "\<exists>i<m. (x ! ((arity + 1) * r * c + i), k) \<in> (edges n arity x)\<^sup>*"
  proof (induction rule: reachable.induct)
    case (from_output i)
    then show ?case by blast
  next
    case (from_connection k j)
    then obtain i where i: "i < m" "(x ! ((arity + 1) * r * c + i), k) \<in> (edges n arity x)\<^sup>*" by blast
    have "(k, x ! ((k - n) * (arity + 1) + j)) \<in> edges n arity x"
      unfolding edges_def using from_connection.hyps by blast
    with i show ?case by (blast intro: rtrancl_into_rtrancl)
  qed
next
  assume "\<exists>i<m. (x ! ((arity + 1) * r * c + i), k) \<in> (edges n arity x)\<^sup>*"
  then obtain i where i: "i < m" "(x ! ((arity + 1) * r * c + i), k) \<in> (edges n arity x)\<^sup>*" by blast
  from i(2) show "reachable n m r c arity x k"
  proof (induction rule: rtrancl_induct)
    case base
    show ?case using i(1) by (rule reachable.from_output)
  next
    case (step k t)
    from step.hyps(2) obtain j where "n \<le> k" "1 \<le> j" "j \<le> arity" "t = x ! ((k - n) * (arity + 1) + j)"
      unfolding edges_def by blast
    with step.IH show ?case by (simp only: reachable.from_connection)
  qed
qed

lemma reachable_bound:
  assumes "feed_forward n m r c arity x" "reachable n m r c arity x k"
  shows "k < n + r * c"
  using assms(2)
proof (induction rule: reachable.induct)
  case (from_output i)
  then show ?case using assms(1) unfolding feed_forward_def by blast
next
  case (from_connection k j)
  then have "x ! ((k - n) * (arity + 1) + j) < k"
    using assms(1) unfolding feed_forward_def by blast
  with from_connection.IH show ?case by linarith
qed

lemma current_closed:
  fixes x :: "nat list"
  assumes "P + m \<le> length x"
  shows "for_each [0 ..< m] (\<lambda>i cur. do { g \<leftarrow> vec_at x (P + i); Some (cur[i := g]) }) (replicate m 0)
           = Some (map (\<lambda>i. x ! (P + i)) [0 ..< m])"
proof -
  define body where "body = (\<lambda>i cur. do { g \<leftarrow> vec_at x (P + i); Some (cur[i := g]) })"
  define I where "I = (\<lambda>i (cur :: nat list). length cur = m \<and> (\<forall>j<m. cur ! j = (if j < i then x ! (P + j) else 0)))"
  have "\<exists>cur. for_each [0 ..< m] body (replicate m 0) = Some cur \<and> I m cur"
  proof (rule for_each_upt_rule)
    show "0 \<le> m" by simp
    show "I 0 (replicate m 0)" by (simp add: I_def)
  next
    fix i cur assume "0 \<le> i" "i < m" "I i cur"
    then show "\<exists>s'. body i cur = Some s' \<and> I (Suc i) s'"
      using assms by (auto simp: I_def body_def vec_at_def nth_list_update less_Suc_eq)
  qed
  then obtain cur where cur: "for_each [0 ..< m] body (replicate m 0) = Some cur"
    "length cur = m" "\<forall>j<m. cur ! j = x ! (P + j)" by (auto simp: I_def)
  have "cur = map (\<lambda>i. x ! (P + i)) [0 ..< m]"
    using cur(2,3) by (intro nth_equalityI) auto
  with cur(1) show ?thesis by (simp add: body_def)
qed

lemma update_active_closed:
  assumes ff: "feed_forward (m_n st) (m_m st) (m_r st) (m_c st) (m_arity st) (m_x st)"
    and len: "length (m_x st) = length (m_lb st)"
  shows "\<exists>nodes. update_active st =
           Some (st\<lparr>m_active_nodes := nodes,
                   m_active_genes := node_genes (m_n st) (m_arity st) nodes []
                     @ map (\<lambda>i. m_r st * m_c st * (m_arity st + 1) + i) [0 ..< m_m st]\<rparr>) \<and>
           sorted nodes \<and> distinct nodes \<and>
           set nodes = {k. reachable (m_n st) (m_m st) (m_r st) (m_c st) (m_arity st) (m_x st) k}"
proof -
  define n m r c arity x where "n = m_n st" and "m = m_m st" and "r = m_r st" and "c = m_c st"
    and "arity = m_arity st" and "x = m_x st"
  note defs = n_def m_def r_def c_def arity_def x_def
  define P where "P = (arity + 1) * r * c"
  define current where "current = map (\<lambda>i. x ! (P + i)) [0 ..< m]"
  have ff': "feed_forward n m r c arity x" using ff by (simp add: defs)
  have lx: "length x = P + m" using ff' by (simp add: feed_forward_def P_def)
  have cur: "for_each [0 ..< m] (\<lambda>i cur. do { g \<leftarrow> vec_at x (P + i); Some (cur[i := g]) }) (replicate m 0)
           = Some current"
    unfolding current_def using lx by (intro current_closed) simp
  have inr: "\<forall>k<n + r * c. n \<le> k \<longrightarrow> (k - n) * (arity + 1) + arity < length x"
  proof (intro allI impI)
    fix k assume k: "k < n + r * c" "n \<le> k"
    then have "k - n < r * c" by linarith
    then have "(k - n) * (arity + 1) + arity < (arity + 1) * r * c"
      by (intro node_gene_below) auto
    then show "(k - n) * (arity + 1) + arity < length x" using lx by (simp add: P_def)
  qed
  have dec: "\<forall>k t. k < n + r * c \<and> (k, t) \<in> edges n arity x \<longrightarrow> t < k"
    using ff' unfolding feed_forward_def edges_def by blast
  have "\<forall>k\<in>set current. k < n + r * c"
    using ff' unfolding feed_forward_def current_def P_def by auto
  with active_loop_closed[OF inr dec, of "n + r * c" current "[]"]
  obtain res where res: "active_loop n arity x current [] = Some res"
    "set res = (edges n arity x)\<^sup>* `` set current" by auto
  have "set res = {k. reachable n m r c arity x k}"
    unfolding res(2) by (auto simp: reachable_iff current_def P_def)
  moreover have "sorted (remdups_adj (sort res))" "distinct (remdups_adj (sort res))"
    by (simp_all add: distinct_remdups_adj_sort)
  moreover have "update_active st =
           Some (st\<lparr>m_active_nodes := remdups_adj (sort res),
                   m_active_genes := node_genes n arity (remdups_adj (sort res)) []
                     @ map (\<lambda>i. r * c * (arity + 1) + i) [0 ..< m]\<rparr>)"
    using cur res(1) len unfolding update_active_def defs[symmetric] P_def[symmetric]
    by simp
  ultimately show ?thesis unfolding defs[symmetric] by (intro exI[of _ "remdups_adj (sort res)"]) simp
qed

lemma update_active_frame:
  assumes "update_active st = Some st'"
  shows "st' = st\<lparr>m_active_nodes := m_active_nodes st', m_active_genes := m_active_genes st'\<rparr>"
  using assms by (auto simp: update_active_def split: if_splits bind_splits)

lemma update_active_same:
  assumes "m_n st2 = m_n st" "m_m st2 = m_m st" "m_r st2 = m_r st" "m_c st2 = m_c st"
    "m_arity st2 = m_arity st" "m_x st2 = m_x st" "length (m_lb st2) = length (m_lb st)"
  shows "map_option (\<lambda>s. (m_active_nodes s, m_active_genes s)) (update_active st2)
           = map_option (\<lambda>s. (m_active_nodes s, m_active_genes s)) (update_active st)"
  using assms by (simp add: update_active_def map_option_bind comp_def)

lemma well_formed_update:
  "well_formed (st\<lparr>m_active_nodes := a, m_active_genes := b\<rparr>) = well_formed st"
  "well_formed (st\<lparr>m_x := x\<rparr>) = well_formed st"
  "well_formed (st\<lparr>m_e := e\<rparr>) = well_formed st"
  by (simp_all add: well_formed_def)

lemma is_valid_update:
  "is_valid (st\<lparr>m_active_nodes := a, m_active_genes := b\<rparr>) x = is_valid st x"
  "is_valid (st\<lparr>m_x := y\<rparr>) x = is_valid st x"
  "is_valid (st\<lparr>m_e := e\<rparr>) x = is_valid st x"
  by (simp_all add: is_valid_def)

lemma consistent_after_update:
  assumes "well_formed st" "is_valid st (m_x st) = Some True" "update_active st = Some st'"
  shows "consistent st'"
proof -
  have fr: "st' = st\<lparr>m_active_nodes := m_active_nodes st', m_active_genes := m_active_genes st'\<rparr>"
    using assms(3) by (rule update_active_frame)
  have "well_formed st'" by (subst fr) (simp add: well_formed_update assms(1))
  moreover have x: "m_x st' = m_x st" by (subst fr) simp
  have "is_valid st' (m_x st') = Some True"
    unfolding x by (subst fr) (simp add: is_valid_update assms(2))
  moreover have "map_option (\<lambda>s. (m_active_nodes s, m_active_genes s)) (update_active st')
           = map_option (\<lambda>s. (m_active_nodes s, m_active_genes s)) (update_active st)"
    by (rule update_active_same; subst fr; simp)
  ultimately show ?thesis using assms(3) by (simp add: consistent_def)
qed

lemma update_active_total:
  assumes "well_formed st" "is_valid st (m_x st) = Some True"
  shows "\<exists>st'. update_active st = Some st'"
proof -
  have "length (m_x st) = length (m_lb st)"
    using assms by (simp add: is_valid_closed well_formed_lengths)
  with update_active_closed[OF valid_feed_forward[OF assms]] show ?thesis by blast
qed


lemma well_formed_scenario: "well_formed (scenario e)"
  using consistent_scenario by (simp add: consistent_def)

lemma valid_scenario: "is_valid (scenario e) (m_x (scenario e)) = Some True"
  using consistent_scenario by (simp add: consistent_def)

section \<open>The active nodes of a chromosome within the bounds\<close>

text \<open>
  C3. On an object with the bounds of its topology and a chromosome within them,
  \<^verbatim>\<open>update_active\<close> returns; the active nodes it leaves are sorted ascending, free of
  duplicates, and are exactly the nodes reachable backward from the targets of the
  output genes through the connection genes of internal nodes. The active nodes and
  active genes depend on the chromosome alone: any object of the same topology and
  bounds with the same chromosome, whatever its engine and its former active sets, gets
  the same ones (so does the result itself, when the computation is repeated).
\<close>

theorem active_nodes_sorted_reachable:
  assumes "well_formed st" and "is_valid st (m_x st) = Some True"
  shows "\<exists>st'. update_active st = Some st' \<and>
           sorted (get_active_nodes st') \<and> distinct (get_active_nodes st') \<and>
           set (get_active_nodes st')
             = {k. reachable (m_n st) (m_m st) (m_r st) (m_c st) (m_arity st) (m_x st) k} \<and>
           (\<forall>st2 :: 'a expression. m_n st2 = m_n st \<and> m_m st2 = m_m st \<and> m_r st2 = m_r st \<and> m_c st2 = m_c st \<and>
              m_arity st2 = m_arity st \<and> m_lb st2 = m_lb st \<and> m_x st2 = m_x st \<longrightarrow>
              map_option (\<lambda>s. (get_active_nodes s, get_active_genes s)) (update_active st2)
                = Some (get_active_nodes st', get_active_genes st'))"
proof -
  have len: "length (m_x st) = length (m_lb st)"
    using assms by (simp add: is_valid_closed well_formed_lengths)
  from update_active_closed[OF valid_feed_forward[OF assms] len]
  obtain st' where st': "update_active st = Some st'" "sorted (m_active_nodes st')"
    "distinct (m_active_nodes st')"
    "set (m_active_nodes st') = {k. reachable (m_n st) (m_m st) (m_r st) (m_c st) (m_arity st) (m_x st) k}"
    by force
  have "map_option (\<lambda>s. (m_active_nodes s, m_active_genes s)) (update_active st2)
          = Some (m_active_nodes st', m_active_genes st')"
    if "m_n st2 = m_n st \<and> m_m st2 = m_m st \<and> m_r st2 = m_r st \<and> m_c st2 = m_c st \<and>
              m_arity st2 = m_arity st \<and> m_lb st2 = m_lb st \<and> m_x st2 = m_x st" for st2 :: "'a expression"
    using update_active_same[of st2 st] that st'(1) by simp
  with st' show ?thesis
    unfolding get_active_nodes_def get_active_genes_def by blast
qed

theorem active_nodes_sorted_reachable_witness:
  "well_formed (scenario (sconst 0)) \<and>
   is_valid (scenario (sconst 0)) (m_x (scenario (sconst 0))) = Some True \<and>
   (\<exists>st'. update_active (scenario (sconst 0)) = Some st' \<and>
           sorted (get_active_nodes st') \<and> distinct (get_active_nodes st') \<and>
           set (get_active_nodes st')
             = {k. reachable 2 1 1 1 2 [0, 0, 1, 2] k})"
proof -
  have h1: "well_formed (scenario (sconst 0))" by (rule well_formed_scenario)
  have h2: "is_valid (scenario (sconst 0)) (m_x (scenario (sconst 0))) = Some True" by (rule valid_scenario)
  from active_nodes_sorted_reachable[OF h1 h2] obtain st' where
    "update_active (scenario (sconst 0)) = Some st'"
    "sorted (get_active_nodes st')" "distinct (get_active_nodes st')"
    "set (get_active_nodes st')
             = {k. reachable (m_n (scenario (sconst 0))) (m_m (scenario (sconst 0))) (m_r (scenario (sconst 0)))
                 (m_c (scenario (sconst 0))) (m_arity (scenario (sconst 0))) (m_x (scenario (sconst 0))) k}"
    by blast
  then show ?thesis using h1 h2 by (auto simp: scenario_def)
qed

lemma node_genes_closed:
  "node_genes n arity nodes acc =
     acc @ concat (map (\<lambda>k. map (\<lambda>j. (k - n) * (arity + 1) + j) [0 ..< arity + 1]) (filter (\<lambda>k. n \<le> k) nodes))"
  by (induction nodes arbitrary: acc) auto

lemma length_node_genes:
  "length (node_genes n arity nodes acc) = length acc + (arity + 1) * length (filter (\<lambda>k. n \<le> k) nodes)"
  by (induction nodes arbitrary: acc) auto

lemma outputs_at_inputs_iff:
  "(\<forall>k. reachable n m r c arity x k \<longrightarrow> k < n) \<longleftrightarrow> (\<forall>i<m. x ! ((arity + 1) * r * c + i) < n)"
proof
  assume "\<forall>k. reachable n m r c arity x k \<longrightarrow> k < n"
  then show "\<forall>i<m. x ! ((arity + 1) * r * c + i) < n"
    by (blast intro: reachable.from_output)
next
  assume a: "\<forall>i<m. x ! ((arity + 1) * r * c + i) < n"
  have "k < n" if "reachable n m r c arity x k" for k
    using that
  proof (induction rule: reachable.induct)
    case (from_output i)
    then show ?case using a by blast
  next
    case (from_connection k j)
    then show ?case by linarith
  qed
  then show "\<forall>k. reachable n m r c arity x k \<longrightarrow> k < n" by blast
qed

lemma valid_length:
  assumes "well_formed st" "is_valid st x = Some True"
  shows "length x = length (m_lb st)"
  using assms by (simp add: is_valid_closed well_formed_lengths)

section \<open>The active genes\<close>

lemma update_active_genes:
  assumes wf: "well_formed st" and v: "is_valid st (m_x st) = Some True"
  shows "\<exists>st'. update_active st = Some st' \<and>
        m_m st \<le> length (m_active_genes st') \<and>
        drop (length (m_active_genes st') - m_m st) (m_active_genes st')
          = map (\<lambda>i. (m_arity st + 1) * m_r st * m_c st + i) [0 ..< m_m st] \<and>
        (length (m_active_genes st') = m_m st \<longleftrightarrow>
           (\<forall>i<m_m st. m_x st ! ((m_arity st + 1) * m_r st * m_c st + i) < m_n st))"
proof -
  from update_active_closed[OF valid_feed_forward[OF wf v] valid_length[OF wf v]]
  obtain nodes where n: "update_active st =
           Some (st\<lparr>m_active_nodes := nodes,
                   m_active_genes := node_genes (m_n st) (m_arity st) nodes []
                     @ map (\<lambda>i. m_r st * m_c st * (m_arity st + 1) + i) [0 ..< m_m st]\<rparr>)"
    "set nodes = {k. reachable (m_n st) (m_m st) (m_r st) (m_c st) (m_arity st) (m_x st) k}"
    by blast
  define genes where "genes = node_genes (m_n st) (m_arity st) nodes []
                     @ map (\<lambda>i. m_r st * m_c st * (m_arity st + 1) + i) [0 ..< m_m st]"
  have l: "length genes = (m_arity st + 1) * length (filter (\<lambda>k. m_n st \<le> k) nodes) + m_m st"
    by (simp add: genes_def length_node_genes)
  have "(length genes = m_m st) = (filter (\<lambda>k. m_n st \<le> k) nodes = [])"
    unfolding l by auto
  also have "\<dots> = (\<forall>k. reachable (m_n st) (m_m st) (m_r st) (m_c st) (m_arity st) (m_x st) k \<longrightarrow> k < m_n st)"
    using n(2) by (auto simp: filter_empty_conv)
  also have "\<dots> = (\<forall>i<m_m st. m_x st ! ((m_arity st + 1) * m_r st * m_c st + i) < m_n st)"
    by (rule outputs_at_inputs_iff)
  finally have iff: "(length genes = m_m st) =
     (\<forall>i<m_m st. m_x st ! ((m_arity st + 1) * m_r st * m_c st + i) < m_n st)" .
  have d: "drop (length genes - m_m st) genes = map (\<lambda>i. (m_arity st + 1) * m_r st * m_c st + i) [0 ..< m_m st]"
    unfolding l by (simp add: genes_def length_node_genes mult.commute mult.left_commute)
  show ?thesis
    using n(1) l iff d unfolding genes_def[symmetric] by simp
qed

text \<open>
  C7, as amended. On an object with the bounds of its topology and a chromosome within
  them, \<^verbatim>\<open>update_active\<close> returns and leaves at least \<open>m\<close> active genes; the last \<open>m\<close> of
  them are the indices of the output genes; and there are exactly \<open>m\<close> of them if and
  only if every output gene points at an input node. The same holds of every consistent
  object, whose active sets are those a recomputation gives. The concrete case needs
  \<open>l = 2\<close> levels back: then the chromosome \<open>[0, 0, 0, 0]\<close> is within the bounds, \<^verbatim>\<open>set\<close>
  accepts it, and the active nodes are \<open>[0]\<close> and the active genes \<open>[3]\<close>.
\<close>

theorem active_genes_end_with_outputs:
  "(well_formed st \<and> is_valid st (m_x st) = Some True \<longrightarrow>
     (\<exists>st'. update_active st = Some st' \<and>
        m_m st \<le> length (get_active_genes st') \<and>
        drop (length (get_active_genes st') - m_m st) (get_active_genes st')
          = map (\<lambda>i. (m_arity st + 1) * m_r st * m_c st + i) [0 ..< m_m st] \<and>
        (length (get_active_genes st') = m_m st \<longleftrightarrow>
           (\<forall>i<m_m st. get st ! ((m_arity st + 1) * m_r st * m_c st + i) < m_n st)))) \<and>
   (consistent st \<longrightarrow>
        m_m st \<le> length (get_active_genes st) \<and>
        drop (length (get_active_genes st) - m_m st) (get_active_genes st)
          = map (\<lambda>i. (m_arity st + 1) * m_r st * m_c st + i) [0 ..< m_m st] \<and>
        (length (get_active_genes st) = m_m st \<longleftrightarrow>
           (\<forall>i<m_m st. get st ! ((m_arity st + 1) * m_r st * m_c st + i) < m_n st))) \<and>
   consistent (scenario_l2 e) \<and>
   set_chromosome [0, 0, 0, 0] (scenario_l2 e) = Returns (scenario_l2 e) \<and>
   get_active_nodes (scenario_l2 e) = [0] \<and> get_active_genes (scenario_l2 e) = [3]"
proof (intro conjI impI)
  assume a: "well_formed st \<and> is_valid st (m_x st) = Some True"
  then have wf: "well_formed st" and v: "is_valid st (m_x st) = Some True" by simp_all
  show "\<exists>st'. update_active st = Some st' \<and>
        m_m st \<le> length (get_active_genes st') \<and>
        drop (length (get_active_genes st') - m_m st) (get_active_genes st')
          = map (\<lambda>i. (m_arity st + 1) * m_r st * m_c st + i) [0 ..< m_m st] \<and>
        (length (get_active_genes st') = m_m st \<longleftrightarrow>
           (\<forall>i<m_m st. get st ! ((m_arity st + 1) * m_r st * m_c st + i) < m_n st))"
    unfolding get_active_genes_def get_def by (rule update_active_genes[OF wf v])
next
  assume c: "consistent st"
  have "well_formed st" "is_valid st (m_x st) = Some True" using c by (simp_all add: consistent_def)
  from update_active_genes[OF this] obtain st' where
    st': "update_active st = Some st'"
      "m_m st \<le> length (m_active_genes st')"
      "drop (length (m_active_genes st') - m_m st) (m_active_genes st')
          = map (\<lambda>i. (m_arity st + 1) * m_r st * m_c st + i) [0 ..< m_m st]"
      "length (m_active_genes st') = m_m st \<longleftrightarrow>
           (\<forall>i<m_m st. m_x st ! ((m_arity st + 1) * m_r st * m_c st + i) < m_n st)"
    by blast
  have eq: "m_active_genes st' = m_active_genes st"
    using c st'(1) by (simp add: consistent_def)
  show "m_m st \<le> length (get_active_genes st)"
    "drop (length (get_active_genes st) - m_m st) (get_active_genes st)
          = map (\<lambda>i. (m_arity st + 1) * m_r st * m_c st + i) [0 ..< m_m st]"
    "length (get_active_genes st) = m_m st \<longleftrightarrow>
           (\<forall>i<m_m st. get st ! ((m_arity st + 1) * m_r st * m_c st + i) < m_n st)"
    using st'(2,3,4) unfolding eq get_active_genes_def get_def by blast+
next
  show "consistent (scenario_l2 e)" by (rule consistent_scenario_l2)
  show "set_chromosome [0, 0, 0, 0] (scenario_l2 e) = Returns (scenario_l2 e)"
    by (simp add: set_chromosome_def scenario_l2_def eval_simps)
  show "get_active_nodes (scenario_l2 e) = [0]" "get_active_genes (scenario_l2 e) = [3]"
    by (simp_all add: scenario_l2_def get_active_nodes_def get_active_genes_def)
qed

text \<open>
  C7, as stated, fails twice. Its concrete case has \<open>l = 1\<close>: there the output gene has
  the lower bound \<open>n + r * (c - l) = 2\<close>, the chromosome \<open>[0, 0, 0, 0]\<close> is outside the
  bounds, and \<^verbatim>\<open>set\<close> throws and leaves the active nodes \<open>[0, 1, 2]\<close> and the active
  genes \<open>[0, 1, 2, 3]\<close>: the object never has the active sets of the claim. And it
  extends the property to every observable state: on the object with \<open>l = 2\<close> and the
  chromosome \<open>[0, 0, 0, 0]\<close>, the call \<^verbatim>\<open>mutate({3, 9})\<close> changes the output gene to 2 and
  then throws without a recomputation; the state it leaves has the one active gene
  \<open>[3]\<close>, exactly \<open>m\<close> of them, while its output gene points at the internal node 2.
\<close>

theorem active_genes_not_in_every_state:
  "consistent (scenario (sconst 0)) \<and>
   set_chromosome [0, 0, 0, 0] (scenario (sconst 0))
     = Throws (Invalid_argument ''Chromosome is incompatible'') (scenario (sconst 0)) \<and>
   get_active_nodes (scenario (sconst 0)) = [0, 1, 2] \<and>
   get_active_genes (scenario (sconst 0)) = [0, 1, 2, 3] \<and>
   consistent (scenario_l2 (sconst 2)) \<and>
   mutate_idxs [3, 9] (scenario_l2 (sconst 2))
     = Throws (Invalid_argument ''idx of gene to be mutated is out of bounds'')
         ((scenario_l2 (sconst 2))\<lparr>m_x := [0, 0, 0, 2]\<rparr>) \<and>
   get_active_genes ((scenario_l2 (sconst 2))\<lparr>m_x := [0, 0, 0, 2]\<rparr>) = [3] \<and>
   m_m ((scenario_l2 (sconst 2))\<lparr>m_x := [0, 0, 0, 2]\<rparr>) = 1 \<and>
   m_n ((scenario_l2 (sconst 2))\<lparr>m_x := [0, 0, 0, 2]\<rparr>) = 2 \<and>
   get ((scenario_l2 (sconst 2))\<lparr>m_x := [0, 0, 0, 2]\<rparr>) ! 3 = 2"
  by (simp add: consistent_scenario consistent_scenario_l2 set_chromosome_def)
     (simp add: scenario_def scenario_l2_def mutate_idxs_def eval_simps
        get_active_nodes_def get_active_genes_def get_def)

text \<open>
  The theorem on the object with the chromosome \<open>[0, 0, 1, 2]\<close>: the recomputation
  leaves four active genes, the last of them the output gene 3, and the object itself,
  which is consistent, has them.
\<close>

theorem active_genes_end_with_outputs_witness:
  "well_formed (scenario (sconst 0)) \<and>
   is_valid (scenario (sconst 0)) (m_x (scenario (sconst 0))) = Some True \<and>
   (\<exists>st'. update_active (scenario (sconst 0)) = Some st' \<and>
        1 \<le> length (get_active_genes st') \<and>
        drop (length (get_active_genes st') - 1) (get_active_genes st') = [3] \<and>
        length (get_active_genes st') \<noteq> 1) \<and>
   consistent (scenario (sconst 0)) \<and>
   drop (length (get_active_genes (scenario (sconst 0))) - 1) (get_active_genes (scenario (sconst 0))) = [3] \<and>
   length (get_active_genes (scenario (sconst 0))) \<noteq> 1"
proof -
  let ?S = "scenario (sconst 0)"
  have c: "consistent ?S" by (rule consistent_scenario)
  have h: "well_formed ?S \<and> is_valid ?S (m_x ?S) = Some True"
    using c by (simp add: consistent_def)
  from active_genes_end_with_outputs[of ?S "sconst 0", THEN conjunct1, THEN mp, OF h]
  obtain st' where "update_active ?S = Some st'"
    "m_m ?S \<le> length (get_active_genes st')"
    "drop (length (get_active_genes st') - m_m ?S) (get_active_genes st')
          = map (\<lambda>i. (m_arity ?S + 1) * m_r ?S * m_c ?S + i) [0 ..< m_m ?S]"
    "length (get_active_genes st') = m_m ?S \<longleftrightarrow>
           (\<forall>i<m_m ?S. get ?S ! ((m_arity ?S + 1) * m_r ?S * m_c ?S + i) < m_n ?S)"
    by blast
  then have a: "update_active ?S = Some st' \<and>
        1 \<le> length (get_active_genes st') \<and>
        drop (length (get_active_genes st') - 1) (get_active_genes st') = [3] \<and>
        length (get_active_genes st') \<noteq> 1"
    by (simp add: scenario_def get_def)
  from active_genes_end_with_outputs[of ?S "sconst 0", THEN conjunct2, THEN conjunct1, THEN mp, OF c]
  have "drop (length (get_active_genes ?S) - m_m ?S) (get_active_genes ?S)
          = map (\<lambda>i. (m_arity ?S + 1) * m_r ?S * m_c ?S + i) [0 ..< m_m ?S]"
    "length (get_active_genes ?S) = m_m ?S \<longleftrightarrow>
           (\<forall>i<m_m ?S. get ?S ! ((m_arity ?S + 1) * m_r ?S * m_c ?S + i) < m_n ?S)"
    by blast+
  then have b: "drop (length (get_active_genes ?S) - 1) (get_active_genes ?S) = [3] \<and>
      length (get_active_genes ?S) \<noteq> 1"
    by (simp add: scenario_def get_def)
  from a b h c show ?thesis by blast
qed

section \<open>set and get\<close>

text \<open>
  C5. On a consistent object, \<^verbatim>\<open>set(x)\<close> with \<open>x\<close> of the length of the bounds and every
  gene within its bounds returns, \<^verbatim>\<open>get()\<close> is then \<open>x\<close>, and the object is consistent
  again; with any other \<open>x\<close> it throws \<^verbatim>\<open>std::invalid_argument\<close> and the object is as
  it was (chromosome, active nodes, active genes and all the rest).
\<close>

theorem set_then_get:
  assumes "consistent st"
  shows "(length x = length (get_lb st) \<and> (\<forall>i<length x. get_lb st ! i \<le> x ! i \<and> x ! i \<le> get_ub st ! i)
            \<longrightarrow> (\<exists>st'. set_chromosome x st = Returns st' \<and> get st' = x \<and> consistent st')) \<and>
         (\<not> (length x = length (get_lb st) \<and> (\<forall>i<length x. get_lb st ! i \<le> x ! i \<and> x ! i \<le> get_ub st ! i))
            \<longrightarrow> set_chromosome x st = Throws (Invalid_argument ''Chromosome is incompatible'') st)"
proof -
  have wf: "well_formed st" using assms by (simp add: consistent_def)
  have iv: "is_valid st x = Some (length x = length (get_lb st) \<and>
              (\<forall>i<length x. get_lb st ! i \<le> x ! i \<and> x ! i \<le> get_ub st ! i))"
    by (simp add: is_valid_closed[OF wf] well_formed_lengths[OF wf] get_lb_def get_ub_def)
  show ?thesis
  proof (intro conjI impI)
    assume ok: "length x = length (get_lb st) \<and> (\<forall>i<length x. get_lb st ! i \<le> x ! i \<and> x ! i \<le> get_ub st ! i)"
    then have v: "is_valid st x = Some True" using iv by simp
    have wf': "well_formed (st\<lparr>m_x := x\<rparr>)" using wf by (simp add: well_formed_update)
    have v': "is_valid (st\<lparr>m_x := x\<rparr>) (m_x (st\<lparr>m_x := x\<rparr>)) = Some True"
      using v by (simp add: is_valid_update)
    from update_active_total[OF wf' v'] obtain st' where st': "update_active (st\<lparr>m_x := x\<rparr>) = Some st'"
      by blast
    have "m_x st' = x" by (subst update_active_frame[OF st']) simp
    moreover have "consistent st'" by (rule consistent_after_update[OF wf' v' st'])
    ultimately show "\<exists>st'. set_chromosome x st = Returns st' \<and> get st' = x \<and> consistent st'"
      using v st' by (simp add: set_chromosome_def lift_def get_def)
  next
    assume "\<not> (length x = length (get_lb st) \<and> (\<forall>i<length x. get_lb st ! i \<le> x ! i \<and> x ! i \<le> get_ub st ! i))"
    then have "is_valid st x = Some False" using iv by simp
    then show "set_chromosome x st = Throws (Invalid_argument ''Chromosome is incompatible'') st"
      by (simp add: set_chromosome_def)
  qed
qed

theorem set_then_get_witness:
  "consistent (scenario_l2 (sconst 0)) \<and>
   (\<exists>st'. set_chromosome [0, 1, 0, 2] (scenario_l2 (sconst 0)) = Returns st' \<and> get st' = [0, 1, 0, 2]
      \<and> consistent st') \<and>
   set_chromosome [0, 1, 0, 3] (scenario_l2 (sconst 0))
     = Throws (Invalid_argument ''Chromosome is incompatible'') (scenario_l2 (sconst 0)) \<and>
   set_chromosome [0, 1, 0] (scenario_l2 (sconst 0))
     = Throws (Invalid_argument ''Chromosome is incompatible'') (scenario_l2 (sconst 0))"
proof -
  have h: "consistent (scenario_l2 (sconst 0))" by (rule consistent_scenario_l2)
  have a: "length [0, 1, 0, 2 :: nat] = length (get_lb (scenario_l2 (sconst 0))) \<and>
    (\<forall>i<length [0, 1, 0, 2 :: nat]. get_lb (scenario_l2 (sconst 0)) ! i \<le> [0, 1, 0, 2] ! i \<and>
        [0, 1, 0, 2] ! i \<le> get_ub (scenario_l2 (sconst 0)) ! i)"
    by (simp add: scenario_l2_def get_lb_def get_ub_def less_Suc_eq nth_Cons' numeral_eq_Suc)
  have b: "\<not> (length [0, 1, 0, 3 :: nat] = length (get_lb (scenario_l2 (sconst 0))) \<and>
    (\<forall>i<length [0, 1, 0, 3 :: nat]. get_lb (scenario_l2 (sconst 0)) ! i \<le> [0, 1, 0, 3] ! i \<and>
        [0, 1, 0, 3] ! i \<le> get_ub (scenario_l2 (sconst 0)) ! i))"
    by (auto simp: scenario_l2_def get_lb_def get_ub_def intro!: exI[of _ 3])
  have c: "\<not> (length [0, 1, 0 :: nat] = length (get_lb (scenario_l2 (sconst 0))) \<and>
    (\<forall>i<length [0, 1, 0 :: nat]. get_lb (scenario_l2 (sconst 0)) ! i \<le> [0, 1, 0] ! i \<and>
        [0, 1, 0] ! i \<le> get_ub (scenario_l2 (sconst 0)) ! i))"
    by (simp add: scenario_l2_def get_lb_def)
  from set_then_get[OF h, of "[0, 1, 0, 2]", THEN conjunct1, THEN mp, OF a]
    set_then_get[OF h, of "[0, 1, 0, 3]", THEN conjunct2, THEN mp, OF b]
    set_then_get[OF h, of "[0, 1, 0]", THEN conjunct2, THEN mp, OF c]
    h
  show ?thesis by blast
qed

section \<open>Mutation of one gene\<close>

lemma uniform_range:
  assumes "uniform_int_distribution lo hi e = Some (v, e')"
  shows "lo \<le> v \<and> v \<le> hi \<and> e' = stl e \<and> v = lo + shd e mod (hi - lo + 1)"
proof -
  from assms have le: "lo \<le> hi" and v: "v = lo + shd e mod (hi - lo + 1)" and e': "e' = stl e"
    by (auto simp: uniform_int_distribution_def split: if_splits)
  have "shd e mod (hi - lo + 1) < hi - lo + 1" by simp
  then have "v \<le> hi" using le v by linarith
  then show ?thesis using v e' by simp
qed

lemma resample_sound:
  assumes "resample lo hi cur e = Some r"
  shows "fst r \<noteq> cur \<and> lo \<le> fst r \<and> fst r \<le> hi"
proof (rule resample.raw_induct[where P = "\<lambda>lo hi cur e r. fst r \<noteq> cur \<and> lo \<le> fst r \<and> fst r \<le> hi",
      OF _ assms])
  fix f lo hi cur e r
  assume ih: "\<And>lo hi cur e r. f lo hi cur e = Some r \<Longrightarrow> fst r \<noteq> cur \<and> lo \<le> fst r \<and> fst r \<le> hi"
    and body: "uniform_int_distribution lo hi e \<bind>
     (\<lambda>(v, e'). if v = cur then f lo hi cur e' else Some (v, e')) = Some r"
  from body obtain v e' where d: "uniform_int_distribution lo hi e = Some (v, e')"
    by (auto split: bind_splits)
  show "fst r \<noteq> cur \<and> lo \<le> fst r \<and> fst r \<le> hi"
  proof (cases "v = cur")
    case True
    with body d have "f lo hi cur e' = Some r" by simp
    then show ?thesis by (rule ih)
  next
    case False
    with body d have "r = (v, e')" by simp
    with False uniform_range[OF d] show ?thesis by simp
  qed
qed

lemma resample_returns:
  assumes "lo \<le> hi"
  shows "lo + (e !! k) mod (hi - lo + 1) \<noteq> cur \<Longrightarrow> \<exists>r. resample lo hi cur e = Some r"
proof (induction k arbitrary: e)
  case 0
  then show ?case using assms
    by (subst resample.simps) (simp add: uniform_int_distribution_def)
next
  case (Suc k)
  then have "\<exists>r. resample lo hi cur (stl e) = Some r" by simp
  then show ?case using assms
    by (subst resample.simps) (auto simp: uniform_int_distribution_def)
qed


lemma consistent_parts:
  assumes "consistent st"
  shows "well_formed st" "is_valid st (m_x st) = Some True" "length (m_x st) = length (m_lb st)"
    "length (m_x st) = length (m_ub st)"
proof -
  show wf: "well_formed st" and v: "is_valid st (m_x st) = Some True"
    using assms by (simp_all add: consistent_def)
  show "length (m_x st) = length (m_lb st)" by (rule valid_length[OF wf v])
  then show "length (m_x st) = length (m_ub st)" by (simp add: well_formed_lengths[OF wf])
qed

lemma nth_update_total: "xs[i := a] ! j = (if i = j \<and> i < length xs then a else xs ! j)"
  by (cases "i < length xs") (simp_all add: nth_list_update list_update_beyond)

lemma mutated_valid:
  assumes "well_formed st" "is_valid st x = Some True" "m_lb st ! idx \<le> v" "v \<le> m_ub st ! idx"
  shows "is_valid st (x[idx := v]) = Some True"
  using assms(2,3,4) by (auto simp: is_valid_closed[OF assms(1)] nth_update_total)

lemma mutate_resampled:
  assumes c: "consistent st" and idx: "idx < length (m_x st)" and lt: "m_lb st ! idx < m_ub st ! idx"
    and rs: "resample (m_lb st ! idx) (m_ub st ! idx) (m_x st ! idx) (m_e st) = Some (v, e')"
  shows "\<exists>st'. mutate idx st = Returns st' \<and> m_x st' = (m_x st)[idx := v] \<and> m_e st' = e' \<and>
               consistent st'"
proof -
  note p = consistent_parts[OF c]
  from resample_sound[OF rs] have v: "v \<noteq> m_x st ! idx" "m_lb st ! idx \<le> v" "v \<le> m_ub st ! idx"
    by simp_all
  define st1 where "st1 = st\<lparr>m_x := (m_x st)[idx := v], m_e := e'\<rparr>"
  have wf1: "well_formed st1" using p(1) by (simp add: st1_def well_formed_def)
  have "is_valid st (m_x st1) = Some True"
    unfolding st1_def using mutated_valid[OF p(1,2) v(2,3)] by simp
  moreover have "is_valid st1 y = is_valid st y" for y by (simp add: st1_def is_valid_def)
  ultimately have v1: "is_valid st1 (m_x st1) = Some True" by simp
  from update_active_total[OF wf1 v1] obtain st' where st': "update_active st1 = Some st'" by blast
  have fr: "m_x st' = m_x st1" "m_e st' = m_e st1"
    by (subst update_active_frame[OF st'], simp)+
  have "consistent st'" by (rule consistent_after_update[OF wf1 v1 st'])
  moreover have "mutate idx st = Returns st'"
    using idx lt rs st' p(3,4) unfolding st1_def
    by (simp add: mutate_def vec_at_def lift_def)
  ultimately show ?thesis using fr by (simp add: st1_def)
qed

lemma mutate_not_thrown:
  assumes "idx < length (m_x st)"
  shows "mutate idx st \<noteq> Throws err q"
  using assms by (simp add: mutate_def lift_def split: option.splits)

text \<open>
  C6. On a consistent object and for an index \<open>idx\<close> within the chromosome: when
  \<open>lb[idx] < ub[idx]\<close>, \<^verbatim>\<open>mutate(idx)\<close> never throws, every state it returns has at
  \<open>idx\<close> a value different from the former one and within \<open>[lb[idx], ub[idx]]\<close>, has all
  the other genes as they were, and is consistent; and it does return as soon as the
  engine, at some draw, yields a value other than the current one (the loop draws until
  then). When \<open>lb[idx] = ub[idx]\<close> it returns and the whole object is as it was.
\<close>

theorem mutate_changes_gene:
  assumes "consistent st" and "idx < length (get st)"
  shows "(get_lb st ! idx < get_ub st ! idx \<longrightarrow>
            (\<forall>st'. mutate idx st = Returns st' \<longrightarrow>
               get st' ! idx \<noteq> get st ! idx \<and>
               get_lb st ! idx \<le> get st' ! idx \<and> get st' ! idx \<le> get_ub st ! idx \<and>
               length (get st') = length (get st) \<and>
               (\<forall>j<length (get st). j \<noteq> idx \<longrightarrow> get st' ! j = get st ! j) \<and>
               consistent st') \<and>
            (\<forall>err q. mutate idx st \<noteq> Throws err q) \<and>
            ((\<exists>k. get_lb st ! idx + (m_e st !! k) mod (get_ub st ! idx - get_lb st ! idx + 1) \<noteq> get st ! idx)
               \<longrightarrow> (\<exists>st'. mutate idx st = Returns st'))) \<and>
         (get_lb st ! idx = get_ub st ! idx \<longrightarrow> mutate idx st = Returns st)"
proof (intro conjI impI allI)
  note p = consistent_parts[OF assms(1)]
  have idx: "idx < length (m_x st)" using assms(2) by (simp add: get_def)
  {
    fix st' assume lt: "get_lb st ! idx < get_ub st ! idx" and r: "mutate idx st = Returns st'"
    then have lt': "m_lb st ! idx < m_ub st ! idx" by (simp add: get_lb_def get_ub_def)
    from r idx lt' p(3,4) obtain v e' where
      rs: "resample (m_lb st ! idx) (m_ub st ! idx) (m_x st ! idx) (m_e st) = Some (v, e')"
      by (auto simp: mutate_def vec_at_def lift_def split: option.splits bind_splits)
    from mutate_resampled[OF assms(1) idx lt' rs] r
    have x': "m_x st' = (m_x st)[idx := v]" and c': "consistent st'" by simp_all
    from resample_sound[OF rs] have v: "v \<noteq> m_x st ! idx" "m_lb st ! idx \<le> v" "v \<le> m_ub st ! idx"
      by simp_all
    show "get st' ! idx \<noteq> get st ! idx" using x' v idx by (simp add: get_def)
    show "get_lb st ! idx \<le> get st' ! idx" using x' v idx by (simp add: get_def get_lb_def)
    show "get st' ! idx \<le> get_ub st ! idx" using x' v idx by (simp add: get_def get_ub_def)
    show "length (get st') = length (get st)" using x' by (simp add: get_def)
    show "consistent st'" by (rule c')
    fix j assume "j < length (get st)" "j \<noteq> idx"
    then show "get st' ! j = get st ! j" using x' by (simp add: get_def)
  }
  {
    fix err q
    show "mutate idx st \<noteq> Throws err q" by (rule mutate_not_thrown[OF idx])
  }
  {
    assume lt: "get_lb st ! idx < get_ub st ! idx"
      and ex: "\<exists>k. get_lb st ! idx + (m_e st !! k) mod (get_ub st ! idx - get_lb st ! idx + 1) \<noteq> get st ! idx"
    then have lt': "m_lb st ! idx < m_ub st ! idx" by (simp add: get_lb_def get_ub_def)
    from ex obtain k where "m_lb st ! idx + (m_e st !! k) mod (m_ub st ! idx - m_lb st ! idx + 1) \<noteq> m_x st ! idx"
      by (auto simp: get_lb_def get_ub_def get_def)
    from resample_returns[OF _ this] lt' obtain v e' where
      "resample (m_lb st ! idx) (m_ub st ! idx) (m_x st ! idx) (m_e st) = Some (v, e')"
      by fastforce
    from mutate_resampled[OF assms(1) idx lt' this]
    show "\<exists>st'. mutate idx st = Returns st'" by blast
  }
  {
    assume "get_lb st ! idx = get_ub st ! idx"
    then show "mutate idx st = Returns st"
      using idx p(3,4) by (simp add: mutate_def vec_at_def lift_def get_lb_def get_ub_def)
  }
qed


theorem mutate_changes_gene_witness:
  "consistent (scenario_l2 (sconst 1)) \<and> 3 < length (get (scenario_l2 (sconst 1))) \<and>
   get_lb (scenario_l2 (sconst 1)) ! 3 < get_ub (scenario_l2 (sconst 1)) ! 3 \<and>
   (\<exists>st'. mutate 3 (scenario_l2 (sconst 1)) = Returns st' \<and>
          get st' ! 3 \<noteq> get (scenario_l2 (sconst 1)) ! 3 \<and> consistent st') \<and>
   get_lb (scenario_l2 (sconst 1)) ! 0 = get_ub (scenario_l2 (sconst 1)) ! 0 \<and>
   mutate 0 (scenario_l2 (sconst 1)) = Returns (scenario_l2 (sconst 1))"
proof -
  let ?S = "scenario_l2 (sconst 1)"
  have h1: "consistent ?S" by (rule consistent_scenario_l2)
  have h2: "3 < length (get ?S)" "0 < length (get ?S)" by (simp_all add: scenario_l2_def get_def)
  have lt: "get_lb ?S ! 3 < get_ub ?S ! 3" by (simp add: scenario_l2_def get_lb_def get_ub_def)
  have eq: "get_lb ?S ! 0 = get_ub ?S ! 0" by (simp add: scenario_l2_def get_lb_def get_ub_def)
  have "get_lb ?S ! 3 + (m_e ?S !! 0) mod (get_ub ?S ! 3 - get_lb ?S ! 3 + 1) \<noteq> get ?S ! 3"
    by (simp add: scenario_l2_def get_lb_def get_ub_def get_def)
  then have ex: "\<exists>k. get_lb ?S ! 3 + (m_e ?S !! k) mod (get_ub ?S ! 3 - get_lb ?S ! 3 + 1) \<noteq> get ?S ! 3"
    by blast
  note t3 = mutate_changes_gene[OF h1 h2(1), THEN conjunct1, THEN mp, OF lt]
  from t3 ex obtain st' where r: "mutate 3 ?S = Returns st'" by blast
  with t3 have "get st' ! 3 \<noteq> get ?S ! 3 \<and> consistent st'" by blast
  with r have "\<exists>st'. mutate 3 ?S = Returns st' \<and> get st' ! 3 \<noteq> get ?S ! 3 \<and> consistent st'" by blast
  moreover note mutate_changes_gene[OF h1 h2(2), THEN conjunct2, THEN mp, OF eq]
  ultimately show ?thesis using h1 h2(1) lt eq by blast
qed

section \<open>mutate\_active\<close>

lemma fair_sdrop:
  assumes "fair e"
  shows "fair (sdrop j e)"
  unfolding fair_def
proof (intro allI impI)
  fix k lo hi cur :: nat assume "lo < hi"
  with assms obtain i where "lo + (sdrop (j + k) e !! i) mod (hi - lo + 1) \<noteq> cur"
    unfolding fair_def by blast
  then show "\<exists>i. lo + (sdrop k (sdrop j e) !! i) mod (hi - lo + 1) \<noteq> cur"
    by (auto simp: sdrop_add)
qed

lemma fair_counting: "fair (siterate Suc 0)"
  unfolding fair_def
proof (intro allI impI)
  fix k lo hi cur :: nat assume lt: "lo < hi"
  define s where "s = hi - lo + 1"
  have s: "2 \<le> s" using lt by (simp add: s_def)
  have v: "sdrop k (siterate Suc 0) !! j = k + j" for j
    by (simp add: sdrop_snth)
  have "k mod s \<noteq> Suc k mod s"
    using s by (metis One_nat_def Suc_1 Suc_n_not_le_n mod_Suc n_not_Suc_n)
  then have "lo + k mod s \<noteq> cur \<or> lo + Suc k mod s \<noteq> cur" by linarith
  then show "\<exists>j. lo + (sdrop k (siterate Suc 0) !! j) mod (hi - lo + 1) \<noteq> cur"
    unfolding s_def[symmetric] v by (metis add_0_right add_Suc_right)
qed

lemma resample_engine:
  assumes "resample lo hi cur e = Some r"
  shows "\<exists>j. snd r = sdrop j e"
proof (rule resample.raw_induct[where P = "\<lambda>lo hi cur e r. \<exists>j. snd r = sdrop j e", OF _ assms])
  fix f lo hi cur e r
  assume ih: "\<And>lo hi cur e r. f lo hi cur e = Some r \<Longrightarrow> \<exists>j. snd r = sdrop j e"
    and body: "uniform_int_distribution lo hi e \<bind>
     (\<lambda>(v, e'). if v = cur then f lo hi cur e' else Some (v, e')) = Some r"
  from body obtain v e' where d: "uniform_int_distribution lo hi e = Some (v, e')"
    by (auto split: bind_splits)
  then have e': "e' = sdrop 1 e" using uniform_range[OF d] by simp
  show "\<exists>j. snd r = sdrop j e"
  proof (cases "v = cur")
    case True
    with body d have "f lo hi cur e' = Some r" by simp
    from ih[OF this] obtain j where "snd r = sdrop j e'" by blast
    then have "snd r = sdrop (1 + j) e" unfolding e' by (simp only: sdrop_add)
    then show ?thesis by blast
  next
    case False
    with body d have "r = (v, e')" by simp
    then have "snd r = sdrop 1 e" using e' by simp
    then show ?thesis by blast
  qed
qed

lemma resample_fair:
  assumes "fair e" "lo < hi"
  shows "\<exists>v e'. resample lo hi cur e = Some (v, e') \<and> fair e'"
proof -
  from assms obtain j where "lo + (sdrop 0 e !! j) mod (hi - lo + 1) \<noteq> cur"
    unfolding fair_def by blast
  then have "lo + (e !! j) mod (hi - lo + 1) \<noteq> cur" by simp
  from resample_returns[OF _ this] assms(2) obtain r where r: "resample lo hi cur e = Some r"
    by fastforce
  from resample_engine[OF r] assms(1) have "fair (snd r)" by (auto simp: fair_sdrop)
  with r show ?thesis by (cases r) auto
qed

lemma mutate_fair:
  assumes c: "consistent st" and idx: "idx < length (m_x st)" and f: "fair (m_e st)"
  shows "\<exists>st'. mutate idx st = Returns st' \<and> consistent st' \<and> fair (m_e st')"
proof (cases "m_lb st ! idx < m_ub st ! idx")
  case True
  from resample_fair[OF f True] obtain v e' where
    rs: "resample (m_lb st ! idx) (m_ub st ! idx) (m_x st ! idx) (m_e st) = Some (v, e')" and fe: "fair e'"
    by blast
  from mutate_resampled[OF c idx True rs] fe show ?thesis by auto
next
  case False
  note p = consistent_parts[OF c]
  from False have "mutate idx st = Returns st"
    using idx p(3,4) by (simp add: mutate_def vec_at_def lift_def)
  with c f show ?thesis by simp
qed


lemma consistent_engine: "consistent (st\<lparr>m_e := e\<rparr>) = consistent st"
proof -
  have "map_option (\<lambda>s. (m_active_nodes s, m_active_genes s)) (update_active (st\<lparr>m_e := e\<rparr>))
           = map_option (\<lambda>s. (m_active_nodes s, m_active_genes s)) (update_active st)"
    by (rule update_active_same) simp_all
  then show ?thesis
    by (simp add: consistent_def well_formed_update is_valid_update)
qed

lemma consistent_active_sets:
  assumes "consistent st"
  shows "sorted (m_active_nodes st)" "distinct (m_active_nodes st)"
    "set (m_active_nodes st) = {k. reachable (m_n st) (m_m st) (m_r st) (m_c st) (m_arity st) (m_x st) k}"
    "m_active_genes st = node_genes (m_n st) (m_arity st) (m_active_nodes st) []
       @ map (\<lambda>i. m_r st * m_c st * (m_arity st + 1) + i) [0 ..< m_m st]"
proof -
  note p = consistent_parts[OF assms]
  from update_active_closed[OF valid_feed_forward[OF p(1,2)] p(3)]
  obtain nodes where n: "update_active st =
           Some (st\<lparr>m_active_nodes := nodes,
                   m_active_genes := node_genes (m_n st) (m_arity st) nodes []
                     @ map (\<lambda>i. m_r st * m_c st * (m_arity st + 1) + i) [0 ..< m_m st]\<rparr>)"
    "sorted nodes" "distinct nodes"
    "set nodes = {k. reachable (m_n st) (m_m st) (m_r st) (m_c st) (m_arity st) (m_x st) k}"
    by blast
  from assms have "map_option (\<lambda>s. (m_active_nodes s, m_active_genes s)) (update_active st)
       = Some (m_active_nodes st, m_active_genes st)"
    unfolding consistent_def by blast
  then have eq: "m_active_nodes st = nodes"
    "m_active_genes st = node_genes (m_n st) (m_arity st) nodes []
                     @ map (\<lambda>i. m_r st * m_c st * (m_arity st + 1) + i) [0 ..< m_m st]"
    unfolding n(1) by auto
  show "sorted (m_active_nodes st)" unfolding eq(1) by (rule n(2))
  show "distinct (m_active_nodes st)" unfolding eq(1) by (rule n(3))
  show "set (m_active_nodes st) = {k. reachable (m_n st) (m_m st) (m_r st) (m_c st) (m_arity st) (m_x st) k}"
    unfolding eq(1) by (rule n(4))
  show "m_active_genes st = node_genes (m_n st) (m_arity st) (m_active_nodes st) []
       @ map (\<lambda>i. m_r st * m_c st * (m_arity st + 1) + i) [0 ..< m_m st]"
    unfolding eq(1) by (rule eq(2))
qed

lemma in_block: "g \<in> set (map (\<lambda>j. a + j) [0 ..< Suc n]) \<longleftrightarrow> (\<exists>j\<le>n. g = (a::nat) + j)"
proof -
  have "set (map (\<lambda>j. a + j) [0 ..< Suc n]) = {a ..< a + Suc n}" by auto
  moreover have "g \<in> {a ..< a + Suc n} \<longleftrightarrow> (\<exists>j\<le>n. g = a + j)"
    unfolding atLeastLessThan_iff by presburger
  ultimately show ?thesis by (simp only:)
qed

lemma in_node_genes:
  "g \<in> set (node_genes n arity nodes []) \<longleftrightarrow>
     (\<exists>k\<in>set nodes. n \<le> k \<and> (\<exists>j\<le>arity. g = (k - n) * (arity + 1) + j))"
proof -
  define F where "F = (\<lambda>k. map (\<lambda>j. (k - n) * (arity + 1) + j) [0 ..< arity + 1])"
  have F: "g \<in> set (F k) \<longleftrightarrow> (\<exists>j\<le>arity. g = (k - n) * (arity + 1) + j)" for k
    unfolding F_def using in_block[of g "(k - n) * (arity + 1)" arity] by (simp only: Suc_eq_plus1)
  have "g \<in> set (node_genes n arity nodes []) \<longleftrightarrow> (\<exists>k\<in>set (filter (\<lambda>k. n \<le> k) nodes). g \<in> set (F k))"
    unfolding node_genes_closed F_def[symmetric] by auto
  also have "\<dots> \<longleftrightarrow> (\<exists>k\<in>set nodes. n \<le> k \<and> g \<in> set (F k))"
    by auto
  also have "\<dots> \<longleftrightarrow> (\<exists>k\<in>set nodes. n \<le> k \<and> (\<exists>j\<le>arity. g = (k - n) * (arity + 1) + j))"
    by (simp only: F)
  finally show ?thesis .
qed

lemma consistent_topology:
  assumes "consistent st"
  shows "1 \<le> m_n st" "1 \<le> m_m st" "1 \<le> m_r st" "1 \<le> m_c st" "2 \<le> m_arity st"
    "length (m_x st) = (m_arity st + 1) * m_r st * m_c st + m_m st"
  using consistent_parts[OF assms] well_formed_lengths[of st]
  by (simp_all add: well_formed_def topology_ok_def)

lemma active_genes_in_range:
  assumes "consistent st" "g \<in> set (m_active_genes st)"
  shows "g < length (m_x st)"
proof -
  note p = consistent_parts[OF assms(1)] and a = consistent_active_sets[OF assms(1)]
    and t = consistent_topology[OF assms(1)]
  have ff: "feed_forward (m_n st) (m_m st) (m_r st) (m_c st) (m_arity st) (m_x st)"
    by (rule valid_feed_forward[OF p(1,2)])
  from assms(2) have "g \<in> set (node_genes (m_n st) (m_arity st) (m_active_nodes st) []) \<or>
      g \<in> set (map (\<lambda>i. m_r st * m_c st * (m_arity st + 1) + i) [0 ..< m_m st])"
    by (subst (asm) a(4)) simp
  then consider
    (node) k j where "k \<in> set (m_active_nodes st)" "m_n st \<le> k" "j \<le> m_arity st"
      "g = (k - m_n st) * (m_arity st + 1) + j"
    | (out) i where "i < m_m st" "g = m_r st * m_c st * (m_arity st + 1) + i"
    unfolding in_node_genes set_map set_upt image_iff Bex_def atLeastLessThan_iff by blast
  then show ?thesis
  proof cases
    case node
    then have "k < m_n st + m_r st * m_c st"
      using reachable_bound[OF ff] a(3) by blast
    then have "k - m_n st < m_r st * m_c st" using node(2) by linarith
    from node_gene_below[OF this node(3)] show ?thesis unfolding node(4) t(6) by simp
  next
    case out
    then show ?thesis unfolding t(6) by (simp add: mult.commute mult.left_commute)
  qed
qed

lemma active_genes_nonempty:
  assumes "consistent st"
  shows "m_m st \<le> length (m_active_genes st)" "0 < length (m_active_genes st)"
proof -
  show "m_m st \<le> length (m_active_genes st)"
    unfolding consistent_active_sets(4)[OF assms] by simp
  then show "0 < length (m_active_genes st)" using consistent_topology(2)[OF assms] by linarith
qed

lemma mutate_effect:
  assumes c: "consistent st" and idx: "idx < length (m_x st)" and r: "mutate idx st = Returns st'"
  shows "mutated_at idx st st'" and "consistent st'"
proof -
  note p = consistent_parts[OF c]
  have inb: "m_lb st ! idx \<le> m_x st ! idx" "m_x st ! idx \<le> m_ub st ! idx"
    using p(2) idx by (simp_all add: is_valid_closed[OF p(1)])
  have "mutated_at idx st st' \<and> consistent st'"
  proof (cases "m_lb st ! idx < m_ub st ! idx")
    case True
    from r idx True p(3,4) obtain v e' where
      rs: "resample (m_lb st ! idx) (m_ub st ! idx) (m_x st ! idx) (m_e st) = Some (v, e')"
      by (auto simp: mutate_def vec_at_def lift_def split: option.splits bind_splits)
    from mutate_resampled[OF c idx True rs] r
    have x': "m_x st' = (m_x st)[idx := v]" and c': "consistent st'" by simp_all
    from resample_sound[OF rs] have v: "v \<noteq> m_x st ! idx" "m_lb st ! idx \<le> v" "v \<le> m_ub st ! idx"
      by simp_all
    have "m_x st' ! idx = v" using x' idx by simp
    then show ?thesis using x' v idx c' by (simp add: mutated_at_def)
  next
    case False
    then have "mutate idx st = Returns st"
      using idx p(3,4) by (simp add: mutate_def vec_at_def lift_def)
    with r have "st' = st" by simp
    moreover have "m_lb st ! idx = m_ub st ! idx" using False inb by linarith
    ultimately show ?thesis using c idx inb by (simp add: mutated_at_def)
  qed
  then show "mutated_at idx st st'" and "consistent st'" by simp_all
qed

lemma active_step_effect:
  assumes c: "consistent s" and st: "active_step s s'"
  shows "mutated_at (m_active_genes s ! (shd (m_e s) mod length (m_active_genes s))) s s'"
    and "consistent s'"
proof -
  define k where "k = shd (m_e s) mod length (m_active_genes s)"
  have pos: "0 < length (m_active_genes s)" by (rule active_genes_nonempty[OF c])
  then have k: "k < length (m_active_genes s)" by (simp add: k_def)
  have d: "uniform_int_distribution 0 (length (m_active_genes s) - 1) (m_e s) = Some (k, stl (m_e s))"
    using pos by (simp add: uniform_int_distribution_def k_def)
  have r: "mutate (m_active_genes s ! k) (s\<lparr>m_e := stl (m_e s)\<rparr>) = Returns s'"
    using st unfolding active_step_def d by simp
  have c0: "consistent (s\<lparr>m_e := stl (m_e s)\<rparr>)" using c by (simp add: consistent_engine)
  have idx: "m_active_genes s ! k < length (m_x (s\<lparr>m_e := stl (m_e s)\<rparr>))"
    using active_genes_in_range[OF c, of "m_active_genes s ! k"] k by simp
  from mutate_effect[OF c0 idx r]
  show "mutated_at (m_active_genes s ! (shd (m_e s) mod length (m_active_genes s))) s s'"
    and "consistent s'"
    unfolding k_def by (simp_all add: mutated_at_def)
qed

lemma active_steps_consistent:
  assumes "consistent st"
  shows "(active_step ^^ k) st s \<Longrightarrow> consistent s"
proof (induction k arbitrary: s)
  case 0
  then show ?case using assms by simp
next
  case (Suc k)
  from Suc.prems obtain s1 where "(active_step ^^ k) st s1" "active_step s1 s" by auto
  then show ?case using Suc.IH active_step_effect(2) by blast
qed

lemma update_active_recomputed:
  assumes "update_active st = Some st'"
  shows "recomputed st'"
proof -
  note fr = update_active_frame[OF assms]
  have "map_option (\<lambda>s. (m_active_nodes s, m_active_genes s)) (update_active st')
           = map_option (\<lambda>s. (m_active_nodes s, m_active_genes s)) (update_active st)"
    by (rule update_active_same) (subst fr, simp)+
  then show ?thesis unfolding recomputed_def assms by simp
qed

lemma mutate_recomputes:
  assumes "mutate idx st = Returns st'" and "m_x st' \<noteq> m_x st"
  shows "recomputed st'"
proof -
  from assms(1) have idx: "idx < length (m_x st)"
    by (auto simp: mutate_def split: if_splits)
  from assms(1) idx obtain lo hi where b: "vec_at (m_lb st) idx = Some lo" "vec_at (m_ub st) idx = Some hi"
    by (auto simp: mutate_def lift_def split: option.splits bind_splits)
  show ?thesis
  proof (cases "lo < hi")
    case True
    with assms(1) idx b obtain v e' where
      "update_active (st\<lparr>m_x := (m_x st)[idx := v], m_e := e'\<rparr>) = Some st'"
      by (auto simp: mutate_def lift_def split: option.splits bind_splits)
    then show ?thesis by (rule update_active_recomputed)
  next
    case False
    with assms(1) idx b have "st' = st" by (simp add: mutate_def lift_def)
    with assms(2) show ?thesis by simp
  qed
qed

lemma active_step_recomputes:
  assumes "active_step s s'" and "m_x s' \<noteq> m_x s"
  shows "recomputed s'"
proof -
  from assms(1) obtain p e where "mutate (m_active_genes s ! p) (s\<lparr>m_e := e\<rparr>) = Returns s'"
    by (auto simp: active_step_def split: option.splits)
  moreover have "m_x s' \<noteq> m_x (s\<lparr>m_e := e\<rparr>)" using assms(2) by simp
  ultimately show ?thesis by (rule mutate_recomputes)
qed

lemma mutate_active_Suc:
  "mutate_active (Suc N) st = Returns st' \<longleftrightarrow> (\<exists>s1. active_step st s1 \<and> mutate_active N s1 = Returns st')"
proof (cases "uniform_int_distribution 0 (length (m_active_genes st) - 1) (m_e st)")
  case None
  then show ?thesis by (simp add: active_step_def)
next
  case (Some d)
  obtain p e where d: "d = (p, e)" by (cases d)
  show ?thesis
    unfolding mutate_active.simps active_step_def Some d
    by (cases "mutate (m_active_genes st ! p) (st\<lparr>m_e := e\<rparr>)")
       (simp_all add: vec_at_def and_then_def)
qed

lemma mutate_active_relpow:
  "mutate_active N st = Returns st' \<longleftrightarrow> (active_step ^^ N) st st'"
proof (induction N arbitrary: st)
  case 0
  show ?case by auto
next
  case (Suc N)
  have "(active_step ^^ Suc N) st st' \<longleftrightarrow> (\<exists>s1. active_step st s1 \<and> (active_step ^^ N) s1 st')"
    by (blast intro: relpowp_Suc_I2 elim: relpowp_Suc_E2)
  then show ?case unfolding mutate_active_Suc Suc.IH by (simp only:)
qed

lemma mutate_active_total:
  assumes "consistent st"
  shows "(\<forall>err q. mutate_active N st \<noteq> Throws err q) \<and>
         (fair (m_e st) \<longrightarrow> (\<exists>st'. mutate_active N st = Returns st'))"
  using assms
proof (induction N arbitrary: st)
  case 0
  then show ?case by simp
next
  case (Suc N)
  define k where "k = shd (m_e st) mod length (m_active_genes st)"
  define idx where "idx = m_active_genes st ! k"
  define st0 where "st0 = st\<lparr>m_e := stl (m_e st)\<rparr>"
  have pos: "0 < length (m_active_genes st)" by (rule active_genes_nonempty[OF Suc.prems])
  then have k: "k < length (m_active_genes st)" by (simp add: k_def)
  have c0: "consistent st0" using Suc.prems by (simp add: st0_def consistent_engine)
  have idx: "idx < length (m_x st0)"
    using active_genes_in_range[OF Suc.prems, of idx] k by (simp add: idx_def st0_def)
  have unf: "mutate_active (Suc N) st = and_then (mutate idx st0) (mutate_active N)"
    using pos k by (simp add: uniform_int_distribution_def vec_at_def k_def idx_def st0_def)
  have nt: "mutate idx st0 \<noteq> Throws err q" for err q by (rule mutate_not_thrown[OF idx])
  show ?case
  proof (intro conjI allI impI)
    fix err q
    show "mutate_active (Suc N) st \<noteq> Throws err q"
    proof (cases "mutate idx st0")
      case (Returns s1)
      have c1: "consistent s1" by (rule mutate_effect(2)[OF c0 idx Returns])
      from Suc.IH[OF c1] Returns show ?thesis unfolding unf by (simp add: and_then_def)
    next
      case (Throws e' q')
      with nt show ?thesis by blast
    next
      case Undefined
      then show ?thesis unfolding unf by (simp add: and_then_def)
    qed
  next
    assume f: "fair (m_e st)"
    then have "fair (m_e st0)" using fair_sdrop[OF f, of 1] by (simp add: st0_def)
    from mutate_fair[OF c0 idx this] obtain s1 where
      s1: "mutate idx st0 = Returns s1" "consistent s1" "fair (m_e s1)" by blast
    from Suc.IH[OF s1(2)] s1(3) obtain st' where "mutate_active N s1 = Returns st'" by blast
    with s1(1) show "\<exists>st'. mutate_active (Suc N) st = Returns st'"
      unfolding unf by (simp add: and_then_def)
  qed
qed

text \<open>
  C2, as amended. \<^verbatim>\<open>mutate_active(N)\<close> is \<open>N\<close> calls of \<^verbatim>\<open>mutate(idx)\<close> in a row, on any
  object: it returns \<open>st'\<close> exactly when \<open>N\<close> steps lead from the object to \<open>st'\<close>, where a
  step draws a position over the whole list of the active genes of the state it starts
  from and calls \<^verbatim>\<open>mutate\<close> on the gene at that position; and a step that changes the
  chromosome leaves the active sets recomputed for the new chromosome, so there is one
  recomputation for each gene changed and the next draw is over the recomputed list.
  Started on a consistent object (its active sets are those of its chromosome): every
  state a step starts from is consistent, the state it leads to is consistent again, and
  between the two exactly the gene at the drawn position \<open>shd e mod size\<close> of the active
  genes has been resampled; the call does not throw; and on a fair engine it returns.
\<close>

theorem mutate_active_steps:
  "(\<forall>st'. mutate_active N (st :: 'u expression) = Returns st' \<longleftrightarrow> (active_step ^^ N) st st') \<and>
   (\<forall>s s' :: 'u expression. active_step s s' \<and> get s' \<noteq> get s \<longrightarrow> recomputed s') \<and>
   (consistent st \<longrightarrow>
      (\<forall>k s s'. (active_step ^^ k) st s \<and> active_step s s' \<longrightarrow>
         consistent s \<and> consistent s' \<and>
         mutated_at (get_active_genes s ! (shd (m_e s) mod length (get_active_genes s))) s s') \<and>
      (\<forall>st'. mutate_active N st = Returns st' \<longrightarrow> consistent st') \<and>
      (\<forall>err q. mutate_active N st \<noteq> Throws err q) \<and>
      (fair (m_e st) \<longrightarrow> (\<exists>st'. mutate_active N st = Returns st')))"
proof (intro conjI impI allI)
  fix st'
  show "mutate_active N st = Returns st' \<longleftrightarrow> (active_step ^^ N) st st'"
    by (rule mutate_active_relpow)
next
  fix s s' assume "active_step s s' \<and> get s' \<noteq> get s"
  then show "recomputed s'" using active_step_recomputes by (auto simp: get_def)
next
  fix k s s' assume c: "consistent st" and a: "(active_step ^^ k) st s \<and> active_step s s'"
  then have cs: "consistent s" using active_steps_consistent by blast
  then show "consistent s" .
  from active_step_effect[OF cs] a
  show "consistent s'"
    "mutated_at (get_active_genes s ! (shd (m_e s) mod length (get_active_genes s))) s s'"
    by (simp_all add: get_active_genes_def)
next
  fix st' assume "consistent st" "mutate_active N st = Returns st'"
  then show "consistent st'" using active_steps_consistent mutate_active_relpow by blast
next
  fix err q assume "consistent st"
  then show "mutate_active N st \<noteq> Throws err q" using mutate_active_total by blast
next
  assume "consistent st" "fair (m_e st)"
  then show "\<exists>st'. mutate_active N st = Returns st'" using mutate_active_total by blast
qed

text \<open>
  The theorem on the object with the chromosome \<open>[0, 0, 0, 0]\<close> and the engine that
  counts \<open>0, 1, 2, \<dots>\<close>: \<^verbatim>\<open>mutate_active(2)\<close> returns, two steps lead to the state it
  returns, and the first of them resamples gene 3, the only active gene of the start.
\<close>

theorem mutate_active_steps_witness:
  "consistent (scenario_l2 (siterate Suc 0)) \<and> fair (m_e (scenario_l2 (siterate Suc 0))) \<and>
   (\<exists>st'. mutate_active 2 (scenario_l2 (siterate Suc 0)) = Returns st' \<and>
      (active_step ^^ 2) (scenario_l2 (siterate Suc 0)) st' \<and> consistent st') \<and>
   (\<exists>s'. active_step (scenario_l2 (siterate Suc 0)) s' \<and>
      consistent s' \<and> mutated_at 3 (scenario_l2 (siterate Suc 0)) s' \<and>
      get s' \<noteq> get (scenario_l2 (siterate Suc 0)) \<and> recomputed s')"
proof -
  let ?S = "scenario_l2 (siterate Suc 0)"
  have h: "consistent ?S" by (rule consistent_scenario_l2)
  have f: "fair (m_e ?S)" using fair_counting by (simp add: scenario_l2_def)
  note t = mutate_active_steps[of 2 ?S]
  note tc = t[THEN conjunct2, THEN conjunct2, THEN mp, OF h]
  from tc f obtain st' where r: "mutate_active 2 ?S = Returns st'" by blast
  with t tc have "(active_step ^^ 2) ?S st' \<and> consistent st'" by blast
  with r have a: "\<exists>st'. mutate_active 2 ?S = Returns st' \<and> (active_step ^^ 2) ?S st' \<and> consistent st'"
    by blast
  have g: "get_active_genes ?S ! (shd (m_e ?S) mod length (get_active_genes ?S)) = 3"
    by (simp add: scenario_l2_def get_active_genes_def)
  note t1 = mutate_active_steps[of "Suc 0" ?S]
  from t1[THEN conjunct2, THEN conjunct2, THEN mp, OF h] f
  obtain s1 where "mutate_active (Suc 0) ?S = Returns s1"
    by blast
  with t1 have "(active_step ^^ Suc 0) ?S s1" by blast
  then have s1: "active_step ?S s1" by auto
  have z: "(active_step ^^ 0) ?S ?S" by simp
  have cm: "consistent s1 \<and> mutated_at 3 ?S s1"
    using tc[THEN conjunct1, rule_format, of 0 ?S s1] z s1 unfolding g by blast
  then have "m_x s1 ! 3 \<noteq> m_x ?S ! 3" by (simp add: mutated_at_def scenario_l2_def)
  then have ne: "get s1 \<noteq> get ?S" unfolding get_def by metis
  from t[THEN conjunct2, THEN conjunct1, rule_format, of ?S s1] s1 ne have "recomputed s1" by blast
  with s1 cm ne have b: "\<exists>s'. active_step ?S s' \<and> consistent s' \<and> mutated_at 3 ?S s' \<and>
      get s' \<noteq> get ?S \<and> recomputed s'" by blast
  from a b h f show ?thesis by blast
qed

lemma mutate_active_two: "mutate_active 2 st = mutate_active (Suc (Suc 0)) st"
  by (simp add: numeral_2_eq_2)

text \<open>
  C2, as stated, has one recomputation at the end and all \<open>N\<close> indices drawn from the
  active genes of the start. On the object below the active genes are \<open>[3]\<close> at the
  start; \<^verbatim>\<open>mutate_active(2)\<close> first mutates gene 3, which makes node 2 active, and then
  draws gene 1 from the recomputed list \<open>[0, 1, 2, 3]\<close> and changes it.
\<close>

theorem mutate_active_draws_from_recomputed_genes:
  "consistent (scenario_l2 (0 ## 2 ## 1 ## sconst 1)) \<and>
   get_active_genes (scenario_l2 (0 ## 2 ## 1 ## sconst 1)) = [3] \<and>
   1 \<notin> set (get_active_genes (scenario_l2 (0 ## 2 ## 1 ## sconst 1))) \<and>
   get (scenario_l2 (0 ## 2 ## 1 ## sconst 1)) = [0, 0, 0, 0] \<and>
   mutate_active 2 (scenario_l2 (0 ## 2 ## 1 ## sconst 1))
     = Returns ((scenario_l2 (sconst 1))
         \<lparr>m_active_nodes := [0, 1, 2], m_active_genes := [0, 1, 2, 3], m_x := [0, 1, 0, 2]\<rparr>)"
  by (simp add: consistent_scenario_l2 mutate_active_two)
     (simp add: scenario_l2_def get_active_genes_def get_def mutate_def eval_simps)

section \<open>mutate\_active\_fgene and mutate\_active\_cgene\<close>








section \<open>The constructed bounds\<close>

lemma lb_le_ub:
  assumes top: "topology_ok n m r c l arity fsize"
  shows "lb_gene n r c l arity g \<le> ub_gene n r c arity fsize g"
proof -
  have t: "0 < n" "0 < r" "0 < l" using top by (simp_all add: topology_ok_def)
  have below: "n + r * (i - l) \<le> n + i * r - 1" if "l \<le> i" for i
  proof -
    have "i - l < i" using t(3) that by linarith
    then have "r * (i - l) < r * i" using t(2) by (rule mult_less_mono2)
    moreover have "r * i = i * r" by (rule mult.commute)
    ultimately show ?thesis by linarith
  qed
  show ?thesis
    using below[of c] below[of "g div (arity + 1) div r"]
    by (simp add: lb_gene_def ub_gene_def mult.commute)
qed

lemma random_chromosome_closed:
  assumes len: "length lb = L" "length ub = L" "length x0 = L"
    and le: "\<forall>g<L. lb ! g \<le> ub ! g"
  shows "\<exists>x e'. random_chromosome lb ub (x0, e) = Some (x, e') \<and> length x = L \<and>
           (\<forall>g<L. lb ! g \<le> x ! g \<and> x ! g \<le> ub ! g)"
proof -
  define body where "body = (\<lambda>i (x :: nat list, e). do {
          lo \<leftarrow> vec_at lb i;
          hi \<leftarrow> vec_at ub i;
          (v, e') \<leftarrow> uniform_int_distribution lo hi e;
          Some (x[i := v], e') })"
  define I where "I = (\<lambda>i (s :: nat list \<times> nat stream).
     length (fst s) = L \<and> (\<forall>g<i. lb ! g \<le> fst s ! g \<and> fst s ! g \<le> ub ! g))"
  have "\<exists>s'. for_each [0 ..< L] body (x0, e) = Some s' \<and> I L s'"
  proof (rule for_each_upt_rule)
    show "0 \<le> L" by simp
    show "I 0 (x0, e)" using len by (simp add: I_def)
  next
    fix i s assume i: "0 \<le> i" "i < L" and inv: "I i s"
    obtain x e1 where s: "s = (x, e1)" by (cases s)
    have "lb ! i \<le> ub ! i" using le i by simp
    then obtain v e2 where d: "uniform_int_distribution (lb ! i) (ub ! i) e1 = Some (v, e2)"
      by (simp add: uniform_int_distribution_def)
    from uniform_range[OF d] have v: "lb ! i \<le> v" "v \<le> ub ! i" by simp_all
    have "body i s = Some (x[i := v], e2)"
      using i len d by (simp add: body_def s vec_at_def)
    moreover have "I (Suc i) (x[i := v], e2)"
      using inv i v unfolding I_def s by (auto simp: nth_list_update less_Suc_eq)
    ultimately show "\<exists>s'. body i s = Some s' \<and> I (Suc i) s'" by blast
  qed
  then show ?thesis
    unfolding random_chromosome_def body_def[symmetric] using len by (auto simp: I_def)
qed


lemma connection_gene_formula:
  fixes n r c l arity :: nat
  assumes "0 < r" "i < c" "j < r" "k < arity"
  shows "ub_gene n r c arity fsize ((i * r + j) * (arity + 1) + k + 1) = n + i * r - 1"
    and "lb_gene n r c l arity ((i * r + j) * (arity + 1) + k + 1) = (if i \<ge> l then n + r * (i - l) else 0)"
proof -
  define g where "g = (i * r + j) * (arity + 1) + (k + 1)"
  have k1: "k + 1 \<le> arity" using assms(4) by simp
  have "i * r + j < Suc i * r" using assms(3) by simp
  also have "\<dots> \<le> c * r" using assms(2) by (intro mult_le_mono1) simp
  finally have q: "i * r + j < r * c" by (simp add: mult.commute)
  have gP: "g < (arity + 1) * r * c" unfolding g_def by (rule node_gene_below[OF q k1])
  note gi = node_gene_index[OF k1, of "i * r + j", folded g_def]
  have "(j + i * r) div r = i + j div r" by (rule div_mult_self1) (use assms(1) in simp)
  then have col: "g div (arity + 1) div r = i" unfolding gi(1) using assms(3) by (simp add: add.commute)
  have g': "(i * r + j) * (arity + 1) + k + 1 = g" by (simp add: g_def)
  show "ub_gene n r c arity fsize ((i * r + j) * (arity + 1) + k + 1) = n + i * r - 1"
    unfolding g' ub_gene_def using gP gi(2) col by simp
  show "lb_gene n r c l arity ((i * r + j) * (arity + 1) + k + 1) = (if i \<ge> l then n + r * (i - l) else 0)"
    unfolding g' lb_gene_def using gP gi(2) col by simp
qed

text \<open>
  C9, as amended. For every topology the constructor accepts whose sizes do not wrap around in
  unsigned arithmetic (\<^const>\<open>topology_ok\<close>: \<open>n, m, r, c, l \<ge> 1\<close>, \<open>arity \<ge> 2\<close>, a non-empty
  function set, \<open>(arity + 1) * r * c + m < 2^32\<close>, \<open>n + r * c \<le> 2^32\<close>), the constructor returns
  an object; its \<open>lb\<close>, \<open>ub\<close> and chromosome all have length \<open>(arity + 1) * r * c + m\<close>;
  \<open>lb[g] \<le> ub[g]\<close> at every gene \<open>g\<close>, the output genes and the columns \<open>0\<close> and \<open>l\<close> included;
  connection gene \<open>k\<close> of the node at column \<open>i\<close>, row \<open>j\<close> has \<open>ub = n + i * r - 1\<close> and
  \<open>lb = n + r * (i - l)\<close> if \<open>i \<ge> l\<close>, else \<open>0\<close>; and the object is consistent.
\<close>

theorem constructed_bounds:
  assumes "topology_ok n m r c l arity (length f)"
  shows "\<exists>st. expression_ctor n m r c l arity f seed = Some (Inr st) \<and>
           length (get_lb st) = (arity + 1) * r * c + m \<and>
           length (get_ub st) = (arity + 1) * r * c + m \<and>
           length (get st) = (arity + 1) * r * c + m \<and>
           (\<forall>g<(arity + 1) * r * c + m. get_lb st ! g \<le> get_ub st ! g) \<and>
           (\<forall>i<c. \<forall>j<r. \<forall>k<arity.
              get_ub st ! ((i * r + j) * (arity + 1) + k + 1) = n + i * r - 1 \<and>
              get_lb st ! ((i * r + j) * (arity + 1) + k + 1) = (if i \<ge> l then n + r * (i - l) else 0)) \<and>
           consistent st"
proof -
  define L where "L = (arity + 1) * r * c + m"
  define lb where "lb = map (lb_gene n r c l arity) [0 ..< L]"
  define ub where "ub = map (ub_gene n r c arity (length f)) [0 ..< L]"
  have t: "0 < n" "0 < m" "0 < r" "0 < c" "0 < l" "2 \<le> arity" "f \<noteq> []" "L < 4294967296"
    using assms by (auto simp add: topology_ok_def L_def)
  have gb: "gene_bounds n m r c l arity (length f) = Some (lb, ub)"
    unfolding lb_def ub_def L_def by (rule gene_bounds_closed[OF assms])
  have le: "\<forall>g<L. lb ! g \<le> ub ! g"
    unfolding lb_def ub_def using lb_le_ub[OF assms] by simp
  have uL: "u32 ((arity + 1) * r * c + m) = L" unfolding L_def[symmetric] using t(8) by (rule u32_id)
  have lens: "length lb = L" "length ub = L" "length (replicate L (0::nat)) = L"
    by (simp_all add: lb_def ub_def)
  from random_chromosome_closed[OF lens le, of seed]
  obtain x e' where x: "random_chromosome lb ub (replicate L 0, seed) = Some (x, e')" "length x = L"
    "\<forall>g<L. lb ! g \<le> x ! g \<and> x ! g \<le> ub ! g"
    by blast
  define st0 :: "'a expression" where "st0 =
    \<lparr>m_n = n, m_m = m, m_r = r, m_c = c, m_l = l, m_arity = arity, m_f = f,
           m_lb = lb, m_ub = ub, m_active_nodes = [], m_active_genes = [], m_x = x, m_e = e'\<rparr>"
  have wf: "well_formed st0" using assms gb by (simp add: well_formed_def st0_def)
  have v: "is_valid st0 (m_x st0) = Some True"
    unfolding is_valid_closed[OF wf] using x(2,3) by (simp add: st0_def L_def)
  from update_active_total[OF wf v] obtain st where st: "update_active st0 = Some st" by blast
  have c: "consistent st" by (rule consistent_after_update[OF wf v st])
  have fr: "m_lb st = lb" "m_ub st = ub" "m_x st = x"
    by (subst update_active_frame[OF st], simp add: st0_def)+
  have ctor: "expression_ctor n m r c l arity f seed = Some (Inr st)"
    using t gb x(1) st[unfolded st0_def] unfolding expression_ctor_def uL
    by simp
  have formula: "ub ! ((i * r + j) * (arity + 1) + k + 1) = n + i * r - 1 \<and>
                 lb ! ((i * r + j) * (arity + 1) + k + 1) = (if i \<ge> l then n + r * (i - l) else 0)"
    if "i < c" "j < r" "k < arity" for i j k
  proof -
    have k1: "k + 1 \<le> arity" using that(3) by simp
    have "i * r + j < Suc i * r" using that(2) by simp
    also have "\<dots> \<le> c * r" using that(1) by (intro mult_le_mono1) simp
    finally have q: "i * r + j < r * c" by (simp add: mult.commute)
    have "(i * r + j) * (arity + 1) + (k + 1) < (arity + 1) * r * c" by (rule node_gene_below[OF q k1])
    then have "(i * r + j) * (arity + 1) + k + 1 < L" by (simp add: L_def)
    then show ?thesis
      unfolding lb_def ub_def using connection_gene_formula[OF t(3) that] by simp
  qed
  show ?thesis
  proof (rule exI[of _ st], unfold get_lb_def get_ub_def get_def fr L_def[symmetric], intro conjI)
    show "expression_ctor n m r c l arity f seed = Some (Inr st)" by (rule ctor)
    show "length lb = L" "length ub = L" "length x = L" by (rule lens(1) lens(2) x(2))+
    show "\<forall>g<L. lb ! g \<le> ub ! g" by (rule le)
    show "consistent st" by (rule c)
    show "\<forall>i<c. \<forall>j<r. \<forall>k<arity.
              ub ! ((i * r + j) * (arity + 1) + k + 1) = n + i * r - 1 \<and>
              lb ! ((i * r + j) * (arity + 1) + k + 1) = (if i \<ge> l then n + r * (i - l) else 0)"
      using formula by blast
  qed
qed

text \<open>The theorem at the smallest topology \<open>n = 2, m = 1, r = c = l = 1, arity = 2\<close>.\<close>

theorem constructed_bounds_witness:
  "topology_ok 2 1 1 1 1 2 (length [add]) \<and>
   (\<exists>st. expression_ctor 2 1 1 1 1 2 [add] (sconst 0) = Some (Inr st) \<and>
      length (get_lb st) = 4 \<and> length (get_ub st) = 4 \<and> length (get st) = 4 \<and>
      (\<forall>g<4. get_lb st ! g \<le> get_ub st ! g) \<and> consistent st)"
proof -
  have h: "topology_ok 2 1 1 1 1 2 (length [add])" by (simp add: topology_ok_def)
  from constructed_bounds[OF h, of "sconst 0"] obtain st where
    "expression_ctor 2 1 1 1 1 2 [add] (sconst 0) = Some (Inr st)"
    "length (get_lb st) = (2 + 1) * 1 * 1 + 1" "length (get_ub st) = (2 + 1) * 1 * 1 + 1"
    "length (get st) = (2 + 1) * 1 * 1 + 1"
    "\<forall>g<(2 + 1) * 1 * 1 + 1. get_lb st ! g \<le> get_ub st ! g" "consistent st"
    by blast
  then have "expression_ctor 2 1 1 1 1 2 [add] (sconst 0) = Some (Inr st) \<and>
      length (get_lb st) = 4 \<and> length (get_ub st) = 4 \<and> length (get st) = 4 \<and>
      (\<forall>g<4. get_lb st ! g \<le> get_ub st ! g) \<and> consistent st"
    by simp
  with h show ?thesis by blast
qed

text \<open>
  C9 as stated, for every topology with \<open>n, m, r, c, l \<ge> 1\<close>, \<open>arity \<ge> 2\<close> and a non-empty function
  set, fails where the unsigned sums wrap: with \<open>n = 4294967295\<close>, \<open>m = 1\<close>, \<open>r = 1\<close>, \<open>c = 3\<close>,
  \<open>l = 3\<close>, \<open>arity = 2\<close> and one kernel, the bounds loops give the output gene (index 9)
  \<open>lb = n + r * (c - l) = 4294967295\<close> and \<open>ub = n + r * c - 1 = 1\<close> modulo \<open>2^32\<close>, so \<open>lb[9] > ub[9]\<close>,
  and the constructor then draws from \<open>uniform_int_distribution(4294967295, 1)\<close>, whose behaviour
  is undefined.
\<close>

theorem constructed_bounds_wrap_around:
  "gene_bounds 4294967295 1 1 3 3 2 (length [add])
     = Some ([0, 0, 0, 0, 0, 0, 0, 0, 0, 4294967295],
             [0, 4294967294, 4294967294, 0, 4294967295, 4294967295, 0, 0, 0, 1]) \<and>
   \<not> [0, 0, 0, 0, 0, 0, 0, 0, 0, 4294967295 :: nat] ! 9
       \<le> [0, 4294967294, 4294967294, 0, 4294967295, 4294967295, 0, 0, 0, 1] ! 9 \<and>
   expression_ctor 4294967295 1 1 3 3 2 [add] (sconst 0) = None"
proof -
  have gb: "gene_bounds 4294967295 1 1 3 3 2 (Suc 0)
     = Some ([0, 0, 0, 0, 0, 0, 0, 0, 0, 4294967295],
             [0, 4294967294, 4294967294, 0, 4294967295, 4294967295, 0, 0, 0, 1])"
    by (simp add: eval_simps)
  have "expression_ctor 4294967295 1 1 3 3 2 [add] (sconst 0) = None"
    unfolding expression_ctor_def by (simp add: gb) (simp add: random_chromosome_def eval_simps)
  with gb show ?thesis by simp
qed

section \<open>Evaluation over the active nodes\<close>

lemma function_gene_in_range:
  assumes wf: "well_formed st" and v: "is_valid st x = Some True" and q: "q < m_r st * m_c st"
  shows "x ! (q * (m_arity st + 1)) < length (m_f st)"
proof -
  define g where "g = q * (m_arity st + 1)"
  have gP: "g < (m_arity st + 1) * m_r st * m_c st"
    using node_gene_below[OF q, of 0 "m_arity st"] by (simp add: g_def)
  have gm: "g mod (m_arity st + 1) = 0" by (simp only: g_def mod_mult_self2_is_0)
  have len: "length x = (m_arity st + 1) * m_r st * m_c st + m_m st"
    and ub: "\<forall>i<length x. x ! i \<le> m_ub st ! i"
    using v by (simp_all add: is_valid_closed[OF wf])
  have "x ! g \<le> m_ub st ! g" using ub gP len by simp
  also have "m_ub st ! g = length (m_f st) - 1"
    using gP gm by (simp add: well_formed_bounds(2)[OF wf] ub_gene_def)
  finally have "x ! g \<le> length (m_f st) - 1" .
  moreover have "1 \<le> length (m_f st)" using wf by (simp add: well_formed_def topology_ok_def)
  ultimately show ?thesis unfolding g_def by linarith
qed

lemma gather_closed:
  fixes mp :: "nat \<rightharpoonup> 'u"
  assumes len: "length fin = arity" and inx: "idx + arity < length x"
    and stored: "\<forall>j<arity. x ! (idx + j + 1) \<in> dom mp"
  shows "gather dflt arity x idx (fin, (mp, miss)) =
           Some (map (\<lambda>j. the (mp (x ! (idx + j + 1)))) [0 ..< arity], (mp, miss))"
proof -
  define body :: "nat \<Rightarrow> 'u list \<times> ((nat \<rightharpoonup> 'u) \<times> nat list) \<Rightarrow> ('u list \<times> ((nat \<rightharpoonup> 'u) \<times> nat list)) option"
    where "body = (\<lambda>j (function_in, nd). do {
          g \<leftarrow> vec_at x (idx + j + 1);
          Some (function_in[j := fst (map_index dflt nd g)], snd (map_index dflt nd g)) })"
  define I :: "nat \<Rightarrow> 'u list \<times> ((nat \<rightharpoonup> 'u) \<times> nat list) \<Rightarrow> bool"
    where "I = (\<lambda>j s. snd s = (mp, miss) \<and> length (fst s) = arity \<and>
                  (\<forall>j'<j. fst s ! j' = the (mp (x ! (idx + j' + 1)))))"
  have "\<exists>s'. for_each [0 ..< arity] body (fin, (mp, miss)) = Some s' \<and> I arity s'"
  proof (rule for_each_upt_rule)
    show "0 \<le> arity" by simp
    show "I 0 (fin, (mp, miss))" by (simp add: I_def len)
  next
    fix i s assume i: "0 \<le> i" "i < arity" and inv: "I i s"
    obtain f where s: "s = (f, (mp, miss))" using inv by (cases s) (simp add: I_def)
    define g where "g = x ! (idx + i + 1)"
    have hit: "map_index dflt (mp, miss) g = (the (mp g), (mp, miss))"
      using stored i(2) by (auto simp: map_index_def g_def)
    have at: "vec_at x (idx + i + 1) = Some g"
      using inx i(2) by (simp add: vec_at_def g_def)
    have b: "body i s = Some (f[i := the (mp g)], (mp, miss))"
      unfolding s body_def by (simp only: prod.case at Option.bind.bind_lunit hit fst_conv snd_conv)
    have "I (Suc i) (f[i := the (mp g)], (mp, miss))"
      using inv i(2) unfolding I_def s by (auto simp: nth_list_update less_Suc_eq g_def)
    with b show "\<exists>s'. body i s = Some s' \<and> I (Suc i) s'" by blast
  qed
  then obtain s' where s': "for_each [0 ..< arity] body (fin, (mp, miss)) = Some s'" "I arity s'"
    by blast
  have "s' = (map (\<lambda>j. the (mp (x ! (idx + j + 1)))) [0 ..< arity], (mp, miss))"
    using s'(2) unfolding I_def by (cases s') (auto intro!: nth_equalityI)
  with s'(1) show ?thesis by (simp add: gather_def body_def)
qed

lemma consistent_feed_forward:
  assumes "consistent st"
  shows "feed_forward (m_n st) (m_m st) (m_r st) (m_c st) (m_arity st) (m_x st)"
  using consistent_parts(1,2)[OF assms] by (rule valid_feed_forward)

lemma active_below:
  assumes c: "consistent st" and k: "k \<in> set (m_active_nodes st)"
  shows "k < m_n st + m_r st * m_c st"
proof -
  have "reachable (m_n st) (m_m st) (m_r st) (m_c st) (m_arity st) (m_x st) k"
    using k consistent_active_sets(3)[OF c] by simp
  then show ?thesis by (rule reachable_bound[OF consistent_feed_forward[OF c]])
qed

lemma active_target:
  assumes c: "consistent st" and k: "k \<in> set (m_active_nodes st)" "m_n st \<le> k" and j: "j < m_arity st"
  shows "m_x st ! ((k - m_n st) * (m_arity st + 1) + j + 1) \<in> set (m_active_nodes st)"
    and "m_x st ! ((k - m_n st) * (m_arity st + 1) + j + 1) < k"
proof -
  have r: "reachable (m_n st) (m_m st) (m_r st) (m_c st) (m_arity st) (m_x st) k"
    using k(1) consistent_active_sets(3)[OF c] by simp
  note b = active_below[OF c k(1)]
  have e: "(k - m_n st) * (m_arity st + 1) + j + 1 = (k - m_n st) * (m_arity st + 1) + (j + 1)"
    by (rule add.assoc)
  have "reachable (m_n st) (m_m st) (m_r st) (m_c st) (m_arity st) (m_x st)
          (m_x st ! ((k - m_n st) * (m_arity st + 1) + (j + 1)))"
    using r k(2) by (rule reachable.from_connection) (use j in simp_all)
  then show "m_x st ! ((k - m_n st) * (m_arity st + 1) + j + 1) \<in> set (m_active_nodes st)"
    unfolding e using consistent_active_sets(3)[OF c] by blast
  have fa: "\<forall>k j. m_n st \<le> k \<and> k < m_n st + m_r st * m_c st \<and> 1 \<le> j \<and> j \<le> m_arity st
              \<longrightarrow> m_x st ! ((k - m_n st) * (m_arity st + 1) + j) < k"
    using consistent_feed_forward[OF c] unfolding feed_forward_def by blast
  show "m_x st ! ((k - m_n st) * (m_arity st + 1) + j + 1) < k"
    unfolding e by (rule fa[rule_format]) (use k(2) b j in simp)
qed

lemma eval_node_closed:
  fixes mp :: "nat \<rightharpoonup> 'u"
  assumes c: "consistent st" and li: "length input = m_n st"
    and i: "i \<in> set (m_active_nodes st)" and len: "length fin = m_arity st"
    and stored: "\<forall>t\<in>set (m_active_nodes st). t < i \<longrightarrow> mp t = Some (node_value dflt st input t)"
  shows "\<exists>fin'. eval_node dflt st input i (fin, (mp, [])) =
            Some (fin', (mp(i \<mapsto> node_value dflt st input i), [])) \<and> length fin' = m_arity st"
proof (cases "i < m_n st")
  case True
  have "node_value dflt st input i = input ! i" using True by (subst node_value.simps) simp
  then show ?thesis using True li len by (simp add: eval_node_def vec_at_def)
next
  case False
  then have ge: "m_n st \<le> i" by simp
  define idx where "idx = (i - m_n st) * (m_arity st + 1)"
  note tg = active_target[OF c i ge, folded idx_def]
  have q: "i - m_n st < m_r st * m_c st" using active_below[OF c i] ge by linarith
  have "idx + m_arity st < (m_arity st + 1) * m_r st * m_c st"
    unfolding idx_def by (rule node_gene_below[OF q]) simp
  then have inx: "idx + m_arity st < length (m_x st)" using consistent_topology(6)[OF c] by simp
  have tv: "mp (m_x st ! (idx + j + 1)) = Some (node_value dflt st input (m_x st ! (idx + j + 1)))"
    if "j < m_arity st" for j
    using stored tg(1,2)[OF that] by blast
  have g: "gather dflt (m_arity st) (m_x st) idx (fin, (mp, [])) =
             Some (map (\<lambda>j. the (mp (m_x st ! (idx + j + 1)))) [0 ..< m_arity st], (mp, []))"
    by (rule gather_closed[OF len inx]) (use tv in blast)
  have args: "map (\<lambda>j. the (mp (m_x st ! (idx + j + 1)))) [0 ..< m_arity st]
            = map (\<lambda>j. if m_x st ! (idx + j + 1) < i
                       then node_value dflt st input (m_x st ! (idx + j + 1)) else dflt) [0 ..< m_arity st]"
    using tv tg(2) by simp
  have fg: "m_x st ! idx < length (m_f st)"
    unfolding idx_def by (rule function_gene_in_range[OF consistent_parts(1,2)[OF c] q])
  have ix: "idx < length (m_x st)" using inx by simp
  have nv: "node_value dflt st input i = (m_f st ! (m_x st ! idx))
             (map (\<lambda>j. if m_x st ! (idx + j + 1) < i
                       then node_value dflt st input (m_x st ! (idx + j + 1)) else dflt) [0 ..< m_arity st])"
    by (subst node_value.simps) (simp only: False if_False idx_def)
  define A where "A = map (\<lambda>j. the (mp (m_x st ! (idx + j + 1)))) [0 ..< m_arity st]"
  have at1: "vec_at (m_x st) idx = Some (m_x st ! idx)" using ix by (simp add: vec_at_def)
  have at2: "vec_at (m_f st) (m_x st ! idx) = Some (m_f st ! (m_x st ! idx))"
    using fg by (simp add: vec_at_def)
  have "eval_node dflt st input i (fin, (mp, [])) =
          Some (A, (mp(i \<mapsto> (m_f st ! (m_x st ! idx)) A), []))"
    unfolding eval_node_def
    by (simp only: False if_False idx_def[symmetric] g[folded A_def] Option.bind.bind_lunit
          prod.case at1 at2 fst_conv snd_conv)
  moreover have "(m_f st ! (m_x st ! idx)) A = node_value dflt st input i"
    unfolding nv A_def args ..
  moreover have "length A = m_arity st" by (simp add: A_def)
  ultimately show ?thesis by simp
qed

lemma eval_nodes_closed:
  fixes mp :: "nat \<rightharpoonup> 'u"
  assumes c: "consistent st" and li: "length input = m_n st"
  shows "m_active_nodes st = pre @ suf \<Longrightarrow> length fin = m_arity st \<Longrightarrow>
         \<forall>k\<in>set pre. mp k = Some (node_value dflt st input k) \<Longrightarrow>
         \<exists>fin' mp'. for_each suf (eval_node dflt st input) (fin, (mp, [])) = Some (fin', (mp', [])) \<and>
            (\<forall>k\<in>set (m_active_nodes st). mp' k = Some (node_value dflt st input k))"
proof (induction suf arbitrary: pre fin mp)
  case Nil
  then show ?case by simp
next
  case (Cons i suf)
  have srt: "sorted (pre @ i # suf)" "distinct (pre @ i # suf)"
    using consistent_active_sets(1,2)[OF c] Cons.prems(1) by simp_all
  have i: "i \<in> set (m_active_nodes st)" using Cons.prems(1) by simp
  have stored: "\<forall>t\<in>set (m_active_nodes st). t < i \<longrightarrow> mp t = Some (node_value dflt st input t)"
  proof (intro ballI impI)
    fix t assume t: "t \<in> set (m_active_nodes st)" "t < i"
    have "t \<notin> set (i # suf)" using srt(1) t(2) by (auto simp: sorted_append)
    then have "t \<in> set pre" using t(1) Cons.prems(1) by auto
    then show "mp t = Some (node_value dflt st input t)" using Cons.prems(3) by blast
  qed
  from eval_node_closed[OF c li i Cons.prems(2) stored]
  obtain fin1 where s1: "eval_node dflt st input i (fin, (mp, [])) =
      Some (fin1, (mp(i \<mapsto> node_value dflt st input i), []))" "length fin1 = m_arity st"
    by blast
  have ih: "\<exists>fin' mp'. for_each suf (eval_node dflt st input)
              (fin1, (mp(i \<mapsto> node_value dflt st input i), [])) = Some (fin', (mp', [])) \<and>
            (\<forall>k\<in>set (m_active_nodes st). mp' k = Some (node_value dflt st input k))"
  proof (rule Cons.IH[of "pre @ [i]"])
    show "m_active_nodes st = (pre @ [i]) @ suf" using Cons.prems(1) by simp
    show "length fin1 = m_arity st" by (rule s1(2))
    show "\<forall>k\<in>set (pre @ [i]). (mp(i \<mapsto> node_value dflt st input i)) k = Some (node_value dflt st input k)"
      using Cons.prems(3) by simp
  qed
  then show ?case by (simp add: s1(1))
qed

lemma read_outputs_closed:
  fixes mp :: "nat \<rightharpoonup> 'u"
  assumes len: "length ret = m_m st"
    and inx: "m_r st * m_c st * (m_arity st + 1) + m_m st \<le> length (m_x st)"
    and stored: "\<forall>i<m_m st. m_x st ! (m_r st * m_c st * (m_arity st + 1) + i) \<in> dom mp"
  shows "read_outputs dflt st (ret, (mp, miss)) =
           Some (map (\<lambda>i. the (mp (m_x st ! (m_r st * m_c st * (m_arity st + 1) + i)))) [0 ..< m_m st],
                 (mp, miss))"
proof -
  define body :: "nat \<Rightarrow> 'u list \<times> ((nat \<rightharpoonup> 'u) \<times> nat list) \<Rightarrow> ('u list \<times> ((nat \<rightharpoonup> 'u) \<times> nat list)) option"
    where "body = (\<lambda>i (retval, nd). do {
          g \<leftarrow> vec_at (m_x st) ((m_r st * m_c st) * (m_arity st + 1) + i);
          Some (retval[i := fst (map_index dflt nd g)], snd (map_index dflt nd g)) })"
  define I :: "nat \<Rightarrow> 'u list \<times> ((nat \<rightharpoonup> 'u) \<times> nat list) \<Rightarrow> bool"
    where "I = (\<lambda>j s. snd s = (mp, miss) \<and> length (fst s) = m_m st \<and>
                  (\<forall>j'<j. fst s ! j' = the (mp (m_x st ! (m_r st * m_c st * (m_arity st + 1) + j')))))"
  have "\<exists>s'. for_each [0 ..< m_m st] body (ret, (mp, miss)) = Some s' \<and> I (m_m st) s'"
  proof (rule for_each_upt_rule)
    show "0 \<le> m_m st" by simp
    show "I 0 (ret, (mp, miss))" by (simp add: I_def len)
  next
    fix i s assume i: "0 \<le> i" "i < m_m st" and inv: "I i s"
    obtain f where s: "s = (f, (mp, miss))" using inv by (cases s) (simp add: I_def)
    define g where "g = m_x st ! (m_r st * m_c st * (m_arity st + 1) + i)"
    have hit: "map_index dflt (mp, miss) g = (the (mp g), (mp, miss))"
      using stored i(2) by (auto simp: map_index_def g_def)
    have at: "vec_at (m_x st) (m_r st * m_c st * (m_arity st + 1) + i) = Some g"
      using inx i(2) by (simp add: vec_at_def g_def)
    have b: "body i s = Some (f[i := the (mp g)], (mp, miss))"
      unfolding s body_def by (simp only: prod.case at Option.bind.bind_lunit hit fst_conv snd_conv)
    have "I (Suc i) (f[i := the (mp g)], (mp, miss))"
      using inv i(2) unfolding I_def s by (auto simp: nth_list_update less_Suc_eq g_def)
    with b show "\<exists>s'. body i s = Some s' \<and> I (Suc i) s'" by blast
  qed
  then obtain s' where s': "for_each [0 ..< m_m st] body (ret, (mp, miss)) = Some s'" "I (m_m st) s'"
    by blast
  have "s' = (map (\<lambda>i. the (mp (m_x st ! (m_r st * m_c st * (m_arity st + 1) + i)))) [0 ..< m_m st], (mp, miss))"
    using s'(2) unfolding I_def by (cases s') (auto intro!: nth_equalityI)
  with s'(1) show ?thesis by (simp add: read_outputs_def body_def)
qed

lemma run_nodes_closed:
  assumes c: "consistent st" and li: "length input = m_n st"
  shows "run_nodes dflt st input =
           Some (map (\<lambda>i. node_value dflt st input (m_x st ! (m_r st * m_c st * (m_arity st + 1) + i)))
                   [0 ..< m_m st], [])"
proof -
  from eval_nodes_closed[OF c li, of "[]" "m_active_nodes st" "replicate (m_arity st) dflt" Map.empty dflt]
  obtain fin' mp' where ev: "for_each (m_active_nodes st) (eval_node dflt st input)
       (replicate (m_arity st) dflt, (Map.empty, [])) = Some (fin', (mp', []))"
    and mp': "\<forall>k\<in>set (m_active_nodes st). mp' k = Some (node_value dflt st input k)"
    by auto
  have out: "m_x st ! (m_r st * m_c st * (m_arity st + 1) + i) \<in> set (m_active_nodes st)"
    if "i < m_m st" for i
  proof -
    have "reachable (m_n st) (m_m st) (m_r st) (m_c st) (m_arity st) (m_x st)
            (m_x st ! ((m_arity st + 1) * m_r st * m_c st + i))"
      using that by (rule reachable.from_output)
    moreover have "(m_arity st + 1) * m_r st * m_c st = m_r st * m_c st * (m_arity st + 1)"
      by (simp add: mult.commute mult.left_commute)
    ultimately show ?thesis using consistent_active_sets(3)[OF c] by simp
  qed
  have inx: "m_r st * m_c st * (m_arity st + 1) + m_m st \<le> length (m_x st)"
    using consistent_topology(6)[OF c] by (simp add: mult.commute mult.left_commute)
  have ro: "read_outputs dflt st (replicate (m_m st) dflt, (mp', [])) =
           Some (map (\<lambda>i. the (mp' (m_x st ! (m_r st * m_c st * (m_arity st + 1) + i)))) [0 ..< m_m st],
                 (mp', []))"
    by (rule read_outputs_closed[OF _ inx]) (use out mp' in auto)
  have "map (\<lambda>i. the (mp' (m_x st ! (m_r st * m_c st * (m_arity st + 1) + i)))) [0 ..< m_m st]
      = map (\<lambda>i. node_value dflt st input (m_x st ! (m_r st * m_c st * (m_arity st + 1) + i))) [0 ..< m_m st]"
    using out mp' by simp
  then show ?thesis unfolding run_nodes_def by (simp add: ev ro del: node_value.simps)
qed


lemma call_scenario: "call 0 (scenario e) [2, 3] = Some (Inr [5])"
  by (simp add: call_def run_nodes_def eval_node_def gather_def read_outputs_def map_index_def
        add_def scenario_def eval_simps)

lemma set_scenario: "set_chromosome [0, 0, 1, 2] (scenario e) = Returns (scenario e)"
  by (simp add: set_chromosome_def scenario_def eval_simps)

text \<open>
  The evaluation on a consistent object. \<^verbatim>\<open>operator()\<close> on an input whose length is
  not \<open>n\<close> throws \<^verbatim>\<open>std::invalid_argument\<close> at its first statement, before the loop over
  the nodes, whatever the object. On a consistent object and an input of length \<open>n\<close> it
  returns \<open>m\<close> values, and the value at \<open>i\<close> is the value of the node that output gene
  \<open>i\<close> points at (\<^const>\<open>node_value\<close>: the input for an input node, the node's function on
  the values of its connection targets otherwise). For \<open>n = 2, m = 1, r = c = l = 1,
  arity = 2\<close>, the one function \<^verbatim>\<open>add\<close> and the chromosome \<open>[0, 0, 1, 2]\<close> set on the
  object, the inputs \<open>[2, 3]\<close> give \<open>[5]\<close>, the active nodes are \<open>[0, 1, 2]\<close> and the
  active genes \<open>[0, 1, 2, 3]\<close>.
\<close>

theorem call_evaluates:
  "(length input \<noteq> m_n st \<longrightarrow>
      call dflt st input = Some (Inl (Invalid_argument ''Input size is incompatible''))) \<and>
   (consistent st \<and> length input = m_n st \<longrightarrow>
      (\<exists>out. call dflt st input = Some (Inr out) \<and> length out = m_m st \<and>
         (\<forall>i<m_m st. out ! i =
            node_value dflt st input (m_x st ! (m_r st * m_c st * (m_arity st + 1) + i))))) \<and>
   set_chromosome [0, 0, 1, 2] (scenario e) = Returns (scenario e) \<and>
   call 0 (scenario e) [2, 3] = Some (Inr [5]) \<and>
   get_active_nodes (scenario e) = [0, 1, 2] \<and> get_active_genes (scenario e) = [0, 1, 2, 3]"
proof (intro conjI impI)
  assume "length input \<noteq> m_n st"
  then show "call dflt st input = Some (Inl (Invalid_argument ''Input size is incompatible''))"
    by (simp add: call_def)
next
  assume a: "consistent st \<and> length input = m_n st"
  then have "call dflt st input =
      Some (Inr (map (\<lambda>i. node_value dflt st input (m_x st ! (m_r st * m_c st * (m_arity st + 1) + i)))
                   [0 ..< m_m st]))"
    by (simp add: call_def run_nodes_closed del: node_value.simps)
  then show "\<exists>out. call dflt st input = Some (Inr out) \<and> length out = m_m st \<and>
         (\<forall>i<m_m st. out ! i =
            node_value dflt st input (m_x st ! (m_r st * m_c st * (m_arity st + 1) + i)))"
    by (simp del: node_value.simps)
next
  show "set_chromosome [0, 0, 1, 2] (scenario e) = Returns (scenario e)" by (rule set_scenario)
  show "call 0 (scenario e) [2, 3] = Some (Inr [5])" by (rule call_scenario)
  show "get_active_nodes (scenario e) = [0, 1, 2]" by (simp add: get_active_nodes_def scenario_def)
  show "get_active_genes (scenario e) = [0, 1, 2, 3]" by (simp add: get_active_genes_def scenario_def)
qed

text \<open>
  The theorem on the object of the scenario: three inputs are refused, and the inputs
  \<open>[7, 1]\<close> give the value of node 2, which is 8.
\<close>

theorem call_evaluates_witness:
  "consistent (scenario (sconst 0)) \<and>
   call 0 (scenario (sconst 0)) [2, 3, 4] = Some (Inl (Invalid_argument ''Input size is incompatible'')) \<and>
   (\<exists>out. call 0 (scenario (sconst 0)) [7, 1] = Some (Inr out) \<and> length out = 1 \<and>
      out ! 0 = node_value 0 (scenario (sconst 0)) [7, 1] 2) \<and>
   node_value 0 (scenario (sconst 0)) [7, 1] 2 = 8"
proof -
  have v: "node_value 0 (scenario (sconst 0)) [7, 1] 2 = 8"
    by (simp add: scenario_def add_def eval_simps)
  have h: "consistent (scenario (sconst 0))" by (rule consistent_scenario)
  have a: "length [2, 3, 4 :: real] \<noteq> m_n (scenario (sconst 0))" by (simp add: scenario_def)
  have b: "consistent (scenario (sconst 0)) \<and> length [7, 1 :: real] = m_n (scenario (sconst 0))"
    using h by (simp add: scenario_def)
  have m: "m_m (scenario (sconst 0)) = 1"
    "m_x (scenario (sconst 0)) ! (m_r (scenario (sconst 0)) * m_c (scenario (sconst 0)) *
       (m_arity (scenario (sconst 0)) + 1) + 0) = 2"
    by (simp_all add: scenario_def)
  from call_evaluates[of "[7, 1]" "scenario (sconst 0)" 0 "sconst 0", THEN conjunct2, THEN conjunct1, THEN mp, OF b]
  obtain out where out: "call 0 (scenario (sconst 0)) [7, 1] = Some (Inr out)" "length out = 1"
    "\<forall>i<1. out ! i = node_value 0 (scenario (sconst 0)) [7, 1]
        (m_x (scenario (sconst 0)) ! (m_r (scenario (sconst 0)) * m_c (scenario (sconst 0)) *
       (m_arity (scenario (sconst 0)) + 1) + i))"
    unfolding m(1) by blast
  from out(3) have "out ! 0 = node_value 0 (scenario (sconst 0)) [7, 1] 2"
    using m(2) by (simp del: node_value.simps)
  with call_evaluates[of "[2, 3, 4]" "scenario (sconst 0)" 0 "sconst 0", THEN conjunct1, THEN mp, OF a]
    out(1,2) h v
  show ?thesis by blast
qed


lemmas run_simps = call_def run_nodes_def eval_node_def gather_def read_outputs_def
  map_index_def add_def

text \<open>
  C4. The claim gives every output, for every input of length \<open>n\<close>, the value of the node
  its output gene points at. The evaluation reads the stored list of active nodes, and
  \<^verbatim>\<open>mutate(idxs)\<close> with an index out of range leaves that list behind the chromosome:
  the object constructed with \<open>n = 2, m = 1, r = c = 1, l = 2, arity = 2\<close> and \<^verbatim>\<open>add\<close> has
  the chromosome \<open>[0, 0, 0, 0]\<close> (drawn by its engine, or installed by \<^verbatim>\<open>set\<close>); after
  \<^verbatim>\<open>mutate({3, 9})\<close>, which changes the output gene to 2 and throws, it has the
  chromosome \<open>[0, 0, 0, 2]\<close>, within the bounds, and the active nodes \<open>[0]\<close>. On the inputs \<open>[2, 2]\<close> the evaluation never computes node 2 and returns the
  default value \<open>[0]\<close>, where the value of node 2 is \<open>add(2, 2) = 4\<close>, which the same
  object returns once its active sets are recomputed.
\<close>

theorem call_after_failed_mutate:
  "expression_ctor 2 1 1 1 2 2 [add] (0 ## 0 ## 0 ## 0 ## sconst 2)
     = Some (Inr (scenario_l2 (sconst 2))) \<and>
   set_chromosome [0, 0, 0, 0] (scenario_l2 (sconst 2)) = Returns (scenario_l2 (sconst 2)) \<and>
   mutate_idxs [3, 9] (scenario_l2 (sconst 2))
     = Throws (Invalid_argument ''idx of gene to be mutated is out of bounds'')
         ((scenario_l2 (sconst 2))\<lparr>m_x := [0, 0, 0, 2]\<rparr>) \<and>
   is_valid ((scenario_l2 (sconst 2))\<lparr>m_x := [0, 0, 0, 2]\<rparr>) [0, 0, 0, 2] = Some True \<and>
   get_active_nodes ((scenario_l2 (sconst 2))\<lparr>m_x := [0, 0, 0, 2]\<rparr>) = [0] \<and>
   call 0 ((scenario_l2 (sconst 2))\<lparr>m_x := [0, 0, 0, 2]\<rparr>) [2, 2] = Some (Inr [0]) \<and>
   node_value 0 ((scenario_l2 (sconst 2))\<lparr>m_x := [0, 0, 0, 2]\<rparr>) [2, 2] 2 = 4 \<and>
   map_option (\<lambda>s. call 0 s [2, 2]) (update_active ((scenario_l2 (sconst 2))\<lparr>m_x := [0, 0, 0, 2]\<rparr>))
     = Some (Some (Inr [4]))"
proof (intro conjI)
  show "expression_ctor 2 1 1 1 2 2 [add] (0 ## 0 ## 0 ## 0 ## sconst 2)
     = Some (Inr (scenario_l2 (sconst 2)))"
    by (simp add: expression_ctor_def random_chromosome_def scenario_l2_def eval_simps)
  show "set_chromosome [0, 0, 0, 0] (scenario_l2 (sconst 2)) = Returns (scenario_l2 (sconst 2))"
    by (simp add: set_chromosome_def scenario_l2_def eval_simps)
  show "mutate_idxs [3, 9] (scenario_l2 (sconst 2))
     = Throws (Invalid_argument ''idx of gene to be mutated is out of bounds'')
         ((scenario_l2 (sconst 2))\<lparr>m_x := [0, 0, 0, 2]\<rparr>)"
    by (simp add: scenario_l2_def mutate_idxs_def eval_simps)
  show "is_valid ((scenario_l2 (sconst 2))\<lparr>m_x := [0, 0, 0, 2]\<rparr>) [0, 0, 0, 2] = Some True"
    by (simp add: scenario_l2_def eval_simps)
  show "get_active_nodes ((scenario_l2 (sconst 2))\<lparr>m_x := [0, 0, 0, 2]\<rparr>) = [0]"
    by (simp add: scenario_l2_def get_active_nodes_def)
  show "call 0 ((scenario_l2 (sconst 2))\<lparr>m_x := [0, 0, 0, 2]\<rparr>) [2, 2] = Some (Inr [0])"
    by (simp add: scenario_l2_def run_simps eval_simps)
  show "node_value 0 ((scenario_l2 (sconst 2))\<lparr>m_x := [0, 0, 0, 2]\<rparr>) [2, 2] 2 = 4"
    by (simp add: scenario_l2_def add_def eval_simps)
  show "map_option (\<lambda>s. call 0 s [2, 2]) (update_active ((scenario_l2 (sconst 2))\<lparr>m_x := [0, 0, 0, 2]\<rparr>))
     = Some (Some (Inr [4]))"
    by (simp add: scenario_l2_def run_simps eval_simps)
qed

section \<open>The lookups of the evaluation\<close>

text \<open>
  The lookups on a consistent object (a chromosome within the bounds, with its active
  sets) and an input of length \<open>n\<close>: for the active node at any position \<open>p\<close> of
  \<^verbatim>\<open>m_active_nodes\<close> that is an internal node, the target of each of its \<open>arity\<close>
  connection genes is the active node of an earlier position \<open>q < p\<close> and has a strictly
  smaller id, so its value was stored before it is read; and the evaluation returns with
  no key read from the map of node values before it was stored, in the loop over the
  nodes and in the loop over the outputs.
\<close>

theorem lookups_never_miss:
  assumes "consistent st" and "length input = m_n st"
  shows "(\<forall>p<length (m_active_nodes st). m_n st \<le> m_active_nodes st ! p \<longrightarrow>
            (\<forall>j<m_arity st. \<exists>q<p.
               m_active_nodes st ! q = m_x st ! ((m_active_nodes st ! p - m_n st) * (m_arity st + 1) + j + 1) \<and>
               m_active_nodes st ! q < m_active_nodes st ! p)) \<and>
         (\<exists>out. run_nodes dflt st input = Some (out, []))"
proof (intro conjI allI impI)
  fix p j assume p: "p < length (m_active_nodes st)" and ge: "m_n st \<le> m_active_nodes st ! p"
    and j: "j < m_arity st"
  define k where "k = m_active_nodes st ! p"
  define t where "t = m_x st ! ((k - m_n st) * (m_arity st + 1) + j + 1)"
  have k: "k \<in> set (m_active_nodes st)" using p by (simp add: k_def)
  have t: "t \<in> set (m_active_nodes st)" "t < k"
    unfolding t_def using active_target[OF assms(1) k ge[folded k_def] j] by blast+
  from t(1) obtain q where q: "q < length (m_active_nodes st)" "m_active_nodes st ! q = t"
    by (auto simp: in_set_conv_nth)
  have "q < p"
  proof (rule ccontr)
    assume "\<not> q < p"
    then have "p \<le> q" by simp
    then have "m_active_nodes st ! p \<le> m_active_nodes st ! q"
      using consistent_active_sets(1)[OF assms(1)] q(1) by (simp add: sorted_nth_mono)
    then show False using t(2) q(2) by (simp add: k_def)
  qed
  then show "\<exists>q<p. m_active_nodes st ! q = m_x st ! ((m_active_nodes st ! p - m_n st) * (m_arity st + 1) + j + 1) \<and>
               m_active_nodes st ! q < m_active_nodes st ! p"
    using q(2) t(2) unfolding t_def k_def by (intro exI[of _ q]) simp
next
  show "\<exists>out. run_nodes dflt st input = Some (out, [])"
    using run_nodes_closed[OF assms] by blast
qed

text \<open>
  The theorem on the object of the scenario: connection gene 2 of node 2 (position 2)
  points at node 1, found at an earlier position.
\<close>

theorem lookups_never_miss_witness:
  "consistent (scenario (sconst 0)) \<and> length [2, 3 :: real] = m_n (scenario (sconst 0)) \<and>
   (\<exists>q<2. m_active_nodes (scenario (sconst 0)) ! q = 1) \<and>
   (\<exists>out. run_nodes 0 (scenario (sconst 0)) [2, 3] = Some (out, []))"
proof -
  have h: "consistent (scenario (sconst 0))" by (rule consistent_scenario)
  have l: "length [2, 3 :: real] = m_n (scenario (sconst 0))" by (simp add: scenario_def)
  note th = lookups_never_miss[OF h l, of 0]
  have p: "2 < length (m_active_nodes (scenario (sconst 0)))"
    "m_n (scenario (sconst 0)) \<le> m_active_nodes (scenario (sconst 0)) ! 2"
    "1 < m_arity (scenario (sconst 0))"
    by (simp_all add: scenario_def)
  have g: "m_x (scenario (sconst 0)) ! ((m_active_nodes (scenario (sconst 0)) ! 2 - m_n (scenario (sconst 0)))
             * (m_arity (scenario (sconst 0)) + 1) + 1 + 1) = 1"
    by (simp add: scenario_def)
  from th[THEN conjunct1, rule_format, OF p] 
  have "\<exists>q<2. m_active_nodes (scenario (sconst 0)) ! q = 1" unfolding g by blast
  with th[THEN conjunct2] h l show ?thesis by blast
qed

text \<open>
  C10. The claim is for any chromosome within the bounds: every connection target of an
  active internal node is an active node whose value is stored before it is read. The
  list of active nodes the evaluation walks is the stored one, and \<^verbatim>\<open>mutate(idxs)\<close> with
  an index out of range leaves it behind the chromosome: the object constructed with
  \<open>n = 2, m = 1, r = 1, c = 2, l = 2, arity = 2\<close> and \<^verbatim>\<open>add\<close>, then
  \<^verbatim>\<open>set({0, 0, 0, 0, 0, 0, 3})\<close>, then \<^verbatim>\<open>mutate({4, 99})\<close>, which changes gene 4, the first
  connection gene of node 3, to 1 and throws, has the chromosome
  \<open>[0, 0, 0, 0, 1, 0, 3]\<close>, within the bounds, and the active nodes \<open>[0, 3]\<close>. On the inputs
  \<open>[1, 2]\<close> the evaluation of node 3 reads node 1, which is not in the list and was never
  stored: the read inserts the default value, the key 1 is in the log of missed keys,
  and the result is \<open>[1]\<close> where the value of node 3 is \<open>add(2, 1) = 3\<close>.
\<close>

theorem lookup_misses_after_failed_mutate:
  "expression_ctor 2 1 1 2 2 2 [add] (0 ## 0 ## 0 ## 0 ## 0 ## 0 ## 0 ## sconst 1)
     = Some (Inr ((two_columns (sconst 1))
          \<lparr>m_active_nodes := [0, 2], m_active_genes := [0, 1, 2, 6], m_x := [0, 0, 0, 0, 0, 0, 2]\<rparr>)) \<and>
   set_chromosome [0, 0, 0, 0, 0, 0, 3]
       ((two_columns (sconst 1))
          \<lparr>m_active_nodes := [0, 2], m_active_genes := [0, 1, 2, 6], m_x := [0, 0, 0, 0, 0, 0, 2]\<rparr>)
     = Returns (two_columns (sconst 1)) \<and>
   mutate_idxs [4, 99] (two_columns (sconst 1))
     = Throws (Invalid_argument ''idx of gene to be mutated is out of bounds'')
         ((two_columns (sconst 1))\<lparr>m_x := [0, 0, 0, 0, 1, 0, 3]\<rparr>) \<and>
   is_valid ((two_columns (sconst 1))\<lparr>m_x := [0, 0, 0, 0, 1, 0, 3]\<rparr>) [0, 0, 0, 0, 1, 0, 3] = Some True \<and>
   get_active_nodes ((two_columns (sconst 1))\<lparr>m_x := [0, 0, 0, 0, 1, 0, 3]\<rparr>) = [0, 3] \<and>
   get ((two_columns (sconst 1))\<lparr>m_x := [0, 0, 0, 0, 1, 0, 3]\<rparr>) ! ((3 - 2) * (2 + 1) + 0 + 1) = 1 \<and>
   run_nodes 0 ((two_columns (sconst 1))\<lparr>m_x := [0, 0, 0, 0, 1, 0, 3]\<rparr>) [1, 2] = Some ([1], [1]) \<and>
   node_value 0 ((two_columns (sconst 1))\<lparr>m_x := [0, 0, 0, 0, 1, 0, 3]\<rparr>) [1, 2] 3 = 3"
proof (intro conjI)
  show "expression_ctor 2 1 1 2 2 2 [add] (0 ## 0 ## 0 ## 0 ## 0 ## 0 ## 0 ## sconst 1)
     = Some (Inr ((two_columns (sconst 1))
          \<lparr>m_active_nodes := [0, 2], m_active_genes := [0, 1, 2, 6], m_x := [0, 0, 0, 0, 0, 0, 2]\<rparr>))"
    by (simp add: expression_ctor_def random_chromosome_def two_columns_def eval_simps)
  show "set_chromosome [0, 0, 0, 0, 0, 0, 3]
       ((two_columns (sconst 1))
          \<lparr>m_active_nodes := [0, 2], m_active_genes := [0, 1, 2, 6], m_x := [0, 0, 0, 0, 0, 0, 2]\<rparr>)
     = Returns (two_columns (sconst 1))"
    by (simp add: set_chromosome_def two_columns_def eval_simps)
  show "mutate_idxs [4, 99] (two_columns (sconst 1))
     = Throws (Invalid_argument ''idx of gene to be mutated is out of bounds'')
         ((two_columns (sconst 1))\<lparr>m_x := [0, 0, 0, 0, 1, 0, 3]\<rparr>)"
    by (simp add: two_columns_def mutate_idxs_def eval_simps)
  show "is_valid ((two_columns (sconst 1))\<lparr>m_x := [0, 0, 0, 0, 1, 0, 3]\<rparr>) [0, 0, 0, 0, 1, 0, 3] = Some True"
    by (simp add: two_columns_def eval_simps)
  show "get_active_nodes ((two_columns (sconst 1))\<lparr>m_x := [0, 0, 0, 0, 1, 0, 3]\<rparr>) = [0, 3]"
    by (simp add: two_columns_def get_active_nodes_def)
  show "get ((two_columns (sconst 1))\<lparr>m_x := [0, 0, 0, 0, 1, 0, 3]\<rparr>) ! ((3 - 2) * (2 + 1) + 0 + 1) = 1"
    by (simp add: two_columns_def get_def)
  show "run_nodes 0 ((two_columns (sconst 1))\<lparr>m_x := [0, 0, 0, 0, 1, 0, 3]\<rparr>) [1, 2] = Some ([1], [1])"
    by (simp add: two_columns_def run_simps eval_simps)
  show "node_value 0 ((two_columns (sconst 1))\<lparr>m_x := [0, 0, 0, 0, 1, 0, 3]\<rparr>) [1, 2] 3 = 3"
    by (simp add: two_columns_def add_def eval_simps)
qed

section \<open>The vector overload of mutate and an index out of range\<close>

text \<open>
  C1. The claim is that \<^verbatim>\<open>mutate(idxs)\<close> with an index out of range fails and changes
  nothing. The loop checks each index when it reaches it, after it has mutated the
  genes listed before: on the consistent object \<open>scenario (sconst 1)\<close> the call
  \<^verbatim>\<open>mutate({1, 4})\<close> throws, and it leaves the chromosome \<open>[0, 1, 1, 2]\<close> with the active
  nodes \<open>[0, 1, 2]\<close> of the old chromosome, where those of the new one are \<open>[1, 2]\<close>.
\<close>

theorem mutate_idxs_throws_after_mutating:
  "consistent (scenario (sconst 1)) \<and>
   mutate_idxs [1, 4] (scenario (sconst 1))
     = Throws (Invalid_argument ''idx of gene to be mutated is out of bounds'')
         ((scenario (sconst 1))\<lparr>m_x := [0, 1, 1, 2]\<rparr>) \<and>
   get ((scenario (sconst 1))\<lparr>m_x := [0, 1, 1, 2]\<rparr>) \<noteq> get (scenario (sconst 1)) \<and>
   get_active_nodes ((scenario (sconst 1))\<lparr>m_x := [0, 1, 1, 2]\<rparr>) = [0, 1, 2] \<and>
   map_option get_active_nodes (update_active ((scenario (sconst 1))\<lparr>m_x := [0, 1, 1, 2]\<rparr>)) = Some [1, 2]"
  by (simp add: scenario_def mutate_idxs_def get_def get_active_nodes_def eval_simps)

end
